theory Spec2Isabelle
  imports Main
begin


section \<open>Data model shared by the handlers\<close>

text \<open>
  \<^verbatim>\<open>SelectionState\<close>, \<^verbatim>\<open>ContentState\<close> and \<^verbatim>\<open>EditorState\<close> are immutable records of
  the library. Only the fields that the handlers read or write are kept. The block map
  inside a content state is left abstract (type variable \<open>'b\<close>): the handlers never look
  into it, they only hand it to \<^verbatim>\<open>DraftModifier\<close>.
\<close>

record selection_state =
  anchorKey :: string
  anchorOffset :: int
  focusKey :: string
  focusOffset :: int
  isBackward :: bool
  hasFocus :: bool

record 'b content_state =
  getBlockMap :: 'b
  selectionBefore :: selection_state
  selectionAfter :: selection_state

record 'b editor_state =
  currentContent :: "'b content_state"
  selection :: selection_state
  inCompositionMode :: bool
  nativelyRenderedContent :: "'b content_state option"
  forceSelection :: bool

datatype removal_direction = Backward | Forward

datatype change_type = InsertCharacters

text \<open>
  The calls that a handler makes on its collaborators, in call order. The first five are
  methods of the editor component (\<^verbatim>\<open>restoreEditorDOM\<close>, \<^verbatim>\<open>exitCurrentMode\<close>,
  \<^verbatim>\<open>update\<close>, \<^verbatim>\<open>_onKeyDown\<close>, \<^verbatim>\<open>props.onFocus\<close>), \<open>PreventDefault\<close> is
  \<^verbatim>\<open>e.preventDefault()\<close>, and the last two are the calls of
  \<^verbatim>\<open>DraftModifier.removeRange\<close> and \<^verbatim>\<open>DraftModifier.replaceText\<close> with their
  arguments.
\<close>

datatype 'b call =
    RestoreEditorDOM
  | ExitCurrentMode
  | Update "'b editor_state"
  | ForwardKeyDown nat
  | OnFocusCallback
  | PreventDefault
  | RemoveRange "'b content_state" selection_state removal_direction
  | ReplaceText "'b content_state" selection_state string "string list" "string option"

text \<open>
  The library functions that the handlers call and whose code is not part of the
  handlers: they are parameters of the model. \<open>isAndroid\<close> is
  \<^verbatim>\<open>UserAgent.isPlatform('Android')\<close>; \<open>isCollapsed\<close> is the method of
  \<^verbatim>\<open>SelectionState\<close>; \<open>forceSelection_fn\<close> is \<^verbatim>\<open>EditorState.forceSelection\<close> and
  \<open>push\<close> is \<^verbatim>\<open>EditorState.push\<close>.
\<close>

record 'b env =
  isAndroid :: bool
  getCurrentInlineStyle :: "'b editor_state \<Rightarrow> string list"
  getEntityKeyForSelection :: "'b content_state \<Rightarrow> selection_state \<Rightarrow> string option"
  isSelectionAtLeafStart :: "'b editor_state \<Rightarrow> bool"
  isCollapsed :: "selection_state \<Rightarrow> bool"
  removeRange :: "'b content_state \<Rightarrow> selection_state \<Rightarrow> removal_direction \<Rightarrow> 'b content_state"
  replaceText :: "'b content_state \<Rightarrow> selection_state \<Rightarrow> string \<Rightarrow> string list
                    \<Rightarrow> string option \<Rightarrow> 'b content_state"
  push :: "'b editor_state \<Rightarrow> 'b content_state \<Rightarrow> change_type \<Rightarrow> 'b editor_state"
  forceSelection_fn :: "'b editor_state \<Rightarrow> selection_state \<Rightarrow> 'b editor_state"

section \<open>editOnFocus\<close>

text \<open>
  The editor as \<^verbatim>\<open>editOnFocus\<close> sees it: \<^verbatim>\<open>_latestEditorState\<close> and whether
  \<^verbatim>\<open>props.onFocus\<close> is set. \<^verbatim>\<open>editor.update(s)\<close> hands \<open>s\<close> to the host, which
  makes it the latest editor state.
\<close>

record 'b editor =
  latestEditorState :: "'b editor_state"
  hasOnFocusProp :: bool

definition update :: "'b editor \<Rightarrow> 'b editor_state \<Rightarrow> 'b editor \<times> 'b call list" where
  "update editor s = (editor\<lparr>latestEditorState := s\<rparr>, [Update s])"

definition editOnFocus :: "'b env \<Rightarrow> 'b editor \<Rightarrow> 'b editor \<times> 'b call list" where
  "editOnFocus E editor =
     (let editorState = latestEditorState editor;
          currentSelection = selection editorState
      in if hasFocus currentSelection then (editor, [])
         else
           let selection' = currentSelection\<lparr>hasFocus := True\<rparr>;
               cb = (if hasOnFocusProp editor then [OnFocusCallback] else []);
               (editor', upd) = update editor (forceSelection_fn E editorState selection')
           in (editor', cb @ upd))"

section \<open>DraftEditorCompositionHandler\<close>

text \<open>
  The module-level variables \<^verbatim>\<open>resolved\<close>, \<^verbatim>\<open>stillComposing\<close>, \<^verbatim>\<open>textInputData\<close>,
  \<^verbatim>\<open>setTimeoutId\<close> and \<^verbatim>\<open>formerTextInputData\<close>, together with what the handler
  reaches through its environment: the editor, the timers armed with \<^verbatim>\<open>setTimeout\<close>
  and not yet fired or cleared (oldest first), the next timer handle, and the anchor and
  focus offsets of \<^verbatim>\<open>window.getSelection()\<close>. Timer handles are positive numbers, as
  in a browser. Event data (\<^verbatim>\<open>e.data\<close>) is a string.
\<close>

datatype timer_task = KeepAlive string | EndResolve

record 'b world =
  resolved :: bool
  stillComposing :: bool
  textInputData :: string
  setTimeoutId :: "nat option"
  formerTextInputData :: string
  editor :: "'b editor"
  timers :: "(nat \<times> timer_task) list"
  nextTimerId :: nat
  domSelection :: "int \<times> int"

definition initial_world :: "'b editor \<Rightarrow> int \<times> int \<Rightarrow> 'b world" where
  "initial_world ed nativeSel =
     \<lparr>resolved = False, stillComposing = False, textInputData = [], setTimeoutId = None,
      formerTextInputData = [], editor = ed, timers = [], nextTimerId = 1,
      domSelection = nativeSel\<rparr>"



definition clearTimeout :: "'b world \<Rightarrow> nat \<Rightarrow> 'b world" where
  "clearTimeout w i = w\<lparr>timers := filter (\<lambda>(j, _). j \<noteq> i) (timers w)\<rparr>"



text \<open>\<^verbatim>\<open>mustReset\<close>, lines 190 to 194; \<^verbatim>\<open>!composedChars\<close> holds of the empty string only.\<close>

definition mustReset :: "'b env \<Rightarrow> 'b editor_state \<Rightarrow> string \<Rightarrow> bool" where
  "mustReset E editorState composedChars =
     (composedChars = [] \<or>
      isSelectionAtLeafStart E editorState \<or>
      length (getCurrentInlineStyle E editorState) > 0 \<or>
      getEntityKeyForSelection E (currentContent editorState) (selection editorState) \<noteq> None)"

text \<open>
  Lines 202 to 216: the content and the selection that the insertion starts from, and the
  call of \<^verbatim>\<open>removeRange\<close> when there is one.
\<close>

definition removeFormer ::
  "'b env \<Rightarrow> 'b editor_state \<Rightarrow> string
     \<Rightarrow> 'b content_state \<times> selection_state \<times> 'b call list" where
  "removeFormer E editorState formerComposedChars =
     (let contentState = currentContent editorState;
          selection0 = selection editorState
      in if isAndroid E \<and> formerComposedChars \<noteq> [] \<and> isCollapsed E selection0 then
           let anchorOffset0 = anchorOffset selection0 - int (length formerComposedChars);
               anchorOffset1 = (if anchorOffset0 < 0 then 0 else anchorOffset0);
               toRemoveSel = selection0\<lparr>anchorOffset := anchorOffset1\<rparr>;
               contentState' = removeRange E (currentContent editorState) toRemoveSel Backward
           in (contentState', selectionAfter contentState',
               [RemoveRange (currentContent editorState) toRemoveSel Backward])
         else (contentState, selection0, []))"

text \<open>Lines 229 to 237: the remap of the recorded selections after the insertion.\<close>

definition remapSelectionAfter ::
  "'b env \<Rightarrow> int \<times> int \<Rightarrow> selection_state \<Rightarrow> 'b content_state \<Rightarrow> 'b content_state" where
  "remapSelectionAfter E originalDomSelection selection1 contentState =
     (let (domAnchor, domFocus) = originalDomSelection
      in if isAndroid E \<and> anchorOffset (selectionAfter contentState) > domAnchor then
           let startOffset = min domAnchor domFocus;
               endOffset = startOffset + abs (domFocus - domAnchor)
           in contentState\<lparr>selectionBefore := selectionAfter contentState,
                selectionAfter := selection1\<lparr>anchorOffset := startOffset,
                                              focusOffset := endOffset\<rparr>\<rparr>
         else contentState)"

definition resolveComposition :: "'b env \<Rightarrow> 'b world \<Rightarrow> 'b world \<times> 'b call list" where
  "resolveComposition E w =
     (if stillComposing w then (w, [])
      else
        let composedChars = textInputData w;
            formerComposedChars = formerTextInputData w;
            w1 = w\<lparr>resolved := True, textInputData := [], formerTextInputData := []\<rparr>;
            editorState = (latestEditorState (editor w))\<lparr>inCompositionMode := False\<rparr>;
            currentStyle = getCurrentInlineStyle E editorState;
            entityKey = getEntityKeyForSelection E (currentContent editorState)
                          (selection editorState);
            originalDomSelection = domSelection w;
            reset = mustReset E editorState composedChars;
            calls1 = (if reset then [RestoreEditorDOM] else []) @ [ExitCurrentMode];
            (contentState1, selection1, calls2) = removeFormer E editorState formerComposedChars
        in if composedChars \<noteq> [] then
             let contentState2 = replaceText E contentState1 selection1 composedChars
                                   currentStyle entityKey;
                 calls3 = [ReplaceText contentState1 selection1 composedChars
                             currentStyle entityKey];
                 contentState3 = remapSelectionAfter E originalDomSelection selection1
                                   contentState2;
                 (ed, calls4) = update (editor w1)
                                  (push E editorState contentState3 InsertCharacters)
             in (w1\<lparr>editor := ed\<rparr>, calls1 @ calls2 @ calls3 @ calls4)
           else if reset then
             let (ed, calls4) = update (editor w1)
                                  (editorState\<lparr>nativelyRenderedContent := None,
                                               forceSelection := True\<rparr>)
             in (w1\<lparr>editor := ed\<rparr>, calls1 @ calls2 @ calls4)
           else (w1, calls1 @ calls2))"





text \<open>
  A timer that fires leaves the pending timers and runs its callback: the one armed by
  \<^verbatim>\<open>onCompositionUpdate\<close> (lines 82 to 88) or the one armed by \<^verbatim>\<open>onCompositionEnd\<close>
  (lines 108 to 112). A handle that is not pending fires nothing.
\<close>

definition fireTimer :: "'b env \<Rightarrow> 'b world \<Rightarrow> nat \<Rightarrow> 'b world \<times> 'b call list" where
  "fireTimer E w i =
     (case map_of (timers w) i of
        None \<Rightarrow> (w, [])
      | Some task \<Rightarrow>
          let w1 = clearTimeout w i
          in (case task of
                KeepAlive data \<Rightarrow>
                  if \<not> resolved w1 \<and> stillComposing w1 then
                    resolveComposition E
                      (w1\<lparr>stillComposing := False,
                          textInputData := textInputData w1 @ data\<rparr>)
                  else (w1, [])
              | EndResolve \<Rightarrow>
                  if \<not> resolved w1 then resolveComposition E w1 else (w1, [])))"




definition updates :: "'b call list \<Rightarrow> 'b editor_state list" where
  "updates calls = concat (map (\<lambda>c. case c of Update s \<Rightarrow> [s] | _ \<Rightarrow> []) calls)"

section \<open>A plain-text host for concrete runs\<close>

text \<open>
  A host whose document is one block of unstyled text without entities: the block map is
  the text itself. It is only used to run the handlers on concrete inputs. Removing a
  range deletes the characters between the two offsets and leaves a collapsed selection at
  the start of the range; replacing a range leaves a collapsed selection after the
  inserted text.
\<close>

definition plain_removeRange ::
  "string content_state \<Rightarrow> selection_state \<Rightarrow> removal_direction \<Rightarrow> string content_state" where
  "plain_removeRange c s d =
     (let lo = nat (min (anchorOffset s) (focusOffset s));
          hi = nat (max (anchorOffset s) (focusOffset s))
      in \<lparr>getBlockMap = take lo (getBlockMap c) @ drop hi (getBlockMap c),
          selectionBefore = s,
          selectionAfter = s\<lparr>anchorOffset := int lo, focusOffset := int lo,
                             isBackward := False\<rparr>\<rparr>)"

definition plain_replaceText ::
  "string content_state \<Rightarrow> selection_state \<Rightarrow> string \<Rightarrow> string list \<Rightarrow> string option
     \<Rightarrow> string content_state" where
  "plain_replaceText c s chars sty ent =
     (let lo = nat (min (anchorOffset s) (focusOffset s));
          hi = nat (max (anchorOffset s) (focusOffset s))
      in \<lparr>getBlockMap = take lo (getBlockMap c) @ chars @ drop hi (getBlockMap c),
          selectionBefore = s,
          selectionAfter = s\<lparr>anchorOffset := int (lo + length chars),
                             focusOffset := int (lo + length chars),
                             isBackward := False\<rparr>\<rparr>)"

definition plain_env :: "bool \<Rightarrow> string env" where
  "plain_env android =
     \<lparr>isAndroid = android,
      getCurrentInlineStyle = (\<lambda>_. []),
      getEntityKeyForSelection = (\<lambda>_ _. None),
      isSelectionAtLeafStart = (\<lambda>s. anchorOffset (selection s) = 0 \<and>
                                     focusOffset (selection s) = 0),
      isCollapsed = (\<lambda>s. anchorKey s = focusKey s \<and> anchorOffset s = focusOffset s),
      removeRange = plain_removeRange,
      replaceText = plain_replaceText,
      push = (\<lambda>s c t. s\<lparr>currentContent := c, selection := selectionAfter c,
                          nativelyRenderedContent := None, forceSelection := False\<rparr>),
      forceSelection_fn = (\<lambda>s sel. s\<lparr>selection := sel, nativelyRenderedContent := None,
                                       forceSelection := True\<rparr>)\<rparr>"

definition caret :: "int \<Rightarrow> bool \<Rightarrow> selection_state" where
  "caret n f = \<lparr>anchorKey = ''k'', anchorOffset = n, focusKey = ''k'', focusOffset = n,
                isBackward = False, hasFocus = f\<rparr>"

definition plain_doc :: "string \<Rightarrow> int \<Rightarrow> bool \<Rightarrow> string editor" where
  "plain_doc txt n f =
     \<lparr>latestEditorState =
        \<lparr>currentContent = \<lparr>getBlockMap = txt, selectionBefore = caret n f,
                            selectionAfter = caret n f\<rparr>,
         selection = caret n f, inCompositionMode = True,
         nativelyRenderedContent = None, forceSelection = False\<rparr>,
      hasOnFocusProp = True\<rparr>"

section \<open>Observations on call sequences and event sequences\<close>

text \<open>
  The editor state that \<^verbatim>\<open>resolveComposition\<close> works on: the latest one with
  \<^verbatim>\<open>inCompositionMode\<close> cleared (lines 174 to 176).
\<close>

definition snapshot :: "'b world \<Rightarrow> 'b editor_state" where
  "snapshot w = (latestEditorState (editor w))\<lparr>inCompositionMode := False\<rparr>"

text \<open>Which calls are calls of \<^verbatim>\<open>DraftModifier\<close>.\<close>

definition is_modifier :: "'b call \<Rightarrow> bool" where
  "is_modifier c = (case c of RemoveRange _ _ _ \<Rightarrow> True | ReplaceText _ _ _ _ _ \<Rightarrow> True | _ \<Rightarrow> False)"

text \<open>The anchor and focus offsets recorded as the selection after an edit.\<close>

definition recorded_offsets :: "'b editor_state \<Rightarrow> int \<times> int" where
  "recorded_offsets s =
     (anchorOffset (selectionAfter (currentContent s)),
      focusOffset (selectionAfter (currentContent s)))"





text \<open>
  A composition in progress on the plain-text host: the text \<open>txt\<close> with the caret at
  \<open>n\<close>, the native selection, and the two buffers.
\<close>

definition typing :: "string \<Rightarrow> int \<Rightarrow> int \<times> int \<Rightarrow> string \<Rightarrow> string \<Rightarrow> string world" where
  "typing txt n nativeSel composed former =
     (initial_world (plain_doc txt n True) nativeSel)
       \<lparr>textInputData := composed, formerTextInputData := former\<rparr>"

section \<open>randomizeBlockMapKeys\<close>

text \<open>
  A \<^verbatim>\<open>ContentBlock\<close> has a key and a text; a \<^verbatim>\<open>ContentBlockNode\<close> has in addition the
  links \<^verbatim>\<open>parent\<close>, \<^verbatim>\<open>children\<close>, \<^verbatim>\<open>prevSibling\<close> and \<^verbatim>\<open>nextSibling\<close>, which
  are keys or null. A block map is an ordered map from the key of a block to the block:
  it is the list of its blocks in map order, looked up by the \<open>key\<close> field.
\<close>

record content_block =
  key :: string
  blockText :: string

record content_block_node = content_block +
  parent :: "string option"
  children :: "string list"
  prevSibling :: "string option"
  nextSibling :: "string option"

datatype block_map =
    ContentBlocks "content_block list"
  | ContentBlockNodes "content_block_node list"

text \<open>
  Modelled from the spec: \<^verbatim>\<open>generateRandomKey\<close> is missing from the sources. The
  functions below take its results as \<open>gen\<close>, where \<open>gen i\<close> is the key that the
  \<open>i\<close>-th call returns during one run. The specification has it "generate a fresh
  key", every key being "freshly generated and unique, suitable for merging without key
  collisions": \<open>fresh_keys gen n olds\<close> says so of the first \<open>n\<close> keys for a map whose
  keys are \<open>olds\<close>.
\<close>

definition fresh_keys :: "(nat \<Rightarrow> string) \<Rightarrow> nat \<Rightarrow> string list \<Rightarrow> bool" where
  "fresh_keys gen n olds =
     (distinct (map gen [0..<n]) \<and> list_all (\<lambda>i. gen i \<notin> set olds) [0..<n])"

text \<open>
  \<^verbatim>\<open>OrderedMap(entries)\<close>: an entry whose key is already in the map replaces the value
  at the place of the earlier entry; any other entry is added at the end.
\<close>

definition OrderedMap_set ::
  "('a content_block_scheme) list \<Rightarrow> 'a content_block_scheme \<Rightarrow> ('a content_block_scheme) list" where
  "OrderedMap_set m b =
     (if key b \<in> set (map key m) then map (\<lambda>c. if key c = key b then b else c) m
      else m @ [b])"

definition OrderedMap_of ::
  "('a content_block_scheme) list \<Rightarrow> ('a content_block_scheme) list" where
  "OrderedMap_of entries = foldl OrderedMap_set [] entries"

text \<open>Lines 113 to 120: the \<open>i\<close>-th block of the array gets the \<open>i\<close>-th generated key.\<close>

fun rekey_from ::
  "(nat \<Rightarrow> string) \<Rightarrow> nat \<Rightarrow> ('a content_block_scheme) list \<Rightarrow> ('a content_block_scheme) list" where
  "rekey_from gen i [] = []"
| "rekey_from gen i (block # blocks) = block\<lparr>key := gen i\<rparr> # rekey_from gen (Suc i) blocks"

definition randomizeContentBlockKeys ::
  "(nat \<Rightarrow> string) \<Rightarrow> ('a content_block_scheme) list \<Rightarrow> ('a content_block_scheme) list" where
  "randomizeContentBlockKeys gen blockMap = OrderedMap_of (rekey_from gen 0 blockMap)"

text \<open>
  The tree variant, lines 25 to 111. \<open>get\<close> is \<^verbatim>\<open>blockMapState.get\<close>, and the four
  \<open>setIn\<close> functions are \<^verbatim>\<open>blockMapState.setIn([k, field], v)\<close>. Every call of
  \<^verbatim>\<open>setIn\<close> in the source is on a key found in the map just before, or on the key of the
  visited block, so that the entry exists; on a key without entry the functions here
  leave the map as it is.

  \<^verbatim>\<open>if (k)\<close> on a key or null holds of a non-empty string (\<open>truthy\<close>).
\<close>

definition get :: "content_block_node list \<Rightarrow> string \<Rightarrow> content_block_node option" where
  "get m k = find (\<lambda>b. key b = k) m"

definition truthy :: "string option \<Rightarrow> bool" where
  "truthy k = (case k of None \<Rightarrow> False | Some s \<Rightarrow> s \<noteq> [])"

definition setIn_parent ::
  "content_block_node list \<Rightarrow> string \<Rightarrow> string option \<Rightarrow> content_block_node list" where
  "setIn_parent m k v = map (\<lambda>b. if key b = k then b\<lparr>parent := v\<rparr> else b) m"

definition setIn_children ::
  "content_block_node list \<Rightarrow> string \<Rightarrow> string list \<Rightarrow> content_block_node list" where
  "setIn_children m k v = map (\<lambda>b. if key b = k then b\<lparr>children := v\<rparr> else b) m"

definition setIn_prevSibling ::
  "content_block_node list \<Rightarrow> string \<Rightarrow> string option \<Rightarrow> content_block_node list" where
  "setIn_prevSibling m k v = map (\<lambda>b. if key b = k then b\<lparr>prevSibling := v\<rparr> else b) m"

definition setIn_nextSibling ::
  "content_block_node list \<Rightarrow> string \<Rightarrow> string option \<Rightarrow> content_block_node list" where
  "setIn_nextSibling m k v = map (\<lambda>b. if key b = k then b\<lparr>nextSibling := v\<rparr> else b) m"

text \<open>
  \<^verbatim>\<open>List.indexOf\<close> (\<open>-1\<close> when absent) and \<^verbatim>\<open>List.set\<close> at an index that
  \<^verbatim>\<open>indexOf\<close> returned for the same list: a negative index counts from the end, so
  \<open>-1\<close> is the last element, and on the empty list it makes a list of one element.
\<close>

fun indexOf :: "string list \<Rightarrow> string \<Rightarrow> int" where
  "indexOf [] x = -1"
| "indexOf (y # ys) x =
     (if y = x then 0 else (let i = indexOf ys x in if i < 0 then -1 else i + 1))"

definition List_set :: "string list \<Rightarrow> int \<Rightarrow> string \<Rightarrow> string list" where
  "List_set xs i v =
     (if i < 0 then (if xs = [] then [v] else xs[length xs - 1 := v])
      else xs[nat i := v])"

text \<open>
  The state of the pass: the block map under mutation, \<^verbatim>\<open>newKeysRef\<close> and
  \<^verbatim>\<open>lastRootBlock\<close>.

  \<^verbatim>\<open>newKeysRef\<close> is a plain object (line 26). The name \<^verbatim>\<open>__proto__\<close> is not a
  property of its own: writing a string there is ignored (line 45), and reading it gives
  \<^verbatim>\<open>Object.prototype\<close> instead of a key (lines 85, 107 and 108). Keys are strings
  here, so that object stands as its string form. Every other name is read only after
  the pass has written it.
\<close>

record rekey_state =
  blockMapState :: "content_block_node list"
  newKeysRef :: "string \<rightharpoonup> string"
  lastRootBlock :: "content_block_node option"

definition newKeysRef_set :: "(string \<rightharpoonup> string) \<Rightarrow> string \<Rightarrow> string \<Rightarrow> (string \<rightharpoonup> string)" where
  "newKeysRef_set ref k v = (if k = ''__proto__'' then ref else ref(k \<mapsto> v))"

definition newKeysRef_get :: "(string \<rightharpoonup> string) \<Rightarrow> string \<Rightarrow> string option" where
  "newKeysRef_get ref k = (if k = ''__proto__'' then Some ''[object Object]'' else ref k)"

text \<open>Lines 47 to 55 and 57 to 65: the sibling links.\<close>

definition linkNext ::
  "string \<Rightarrow> content_block_node \<Rightarrow> content_block_node list \<Rightarrow> content_block_node list" where
  "linkNext newKey block m =
     (case nextSibling block of
        None \<Rightarrow> m
      | Some nextKey \<Rightarrow>
          if nextKey = [] then m
          else (case get m nextKey of
                  Some nextBlock \<Rightarrow> setIn_prevSibling m nextKey (Some newKey)
                | None \<Rightarrow> setIn_nextSibling m (key block) None))"

definition linkPrev ::
  "string \<Rightarrow> content_block_node \<Rightarrow> content_block_node list \<Rightarrow> content_block_node list" where
  "linkPrev newKey block m =
     (case prevSibling block of
        None \<Rightarrow> m
      | Some prevKey \<Rightarrow>
          if prevKey = [] then m
          else (case get m prevKey of
                  Some prevBlock \<Rightarrow> setIn_nextSibling m prevKey (Some newKey)
                | None \<Rightarrow> setIn_prevSibling m (key block) None))"

text \<open>
  Lines 67 to 90: the parent link, or the chain of the root blocks. \<open>hasParentIn\<close> is
  the test of line 67, \<open>chainRoot\<close> is its else branch.
\<close>

definition hasParentIn :: "content_block_node list \<Rightarrow> content_block_node \<Rightarrow> bool" where
  "hasParentIn m block =
     (case parent block of
        None \<Rightarrow> False
      | Some parentKey \<Rightarrow> parentKey \<noteq> [] \<and> get m parentKey \<noteq> None)"

definition chainRoot :: "string \<Rightarrow> content_block_node \<Rightarrow> rekey_state \<Rightarrow> rekey_state" where
  "chainRoot newKey block st =
     (let m1 = setIn_parent (blockMapState st) (key block) None;
          m2 = (case lastRootBlock st of
                  Some lastRoot \<Rightarrow>
                    setIn_prevSibling
                      (setIn_nextSibling m1 (key lastRoot) (Some newKey))
                      (key block) (newKeysRef_get (newKeysRef st) (key lastRoot))
                | None \<Rightarrow> m1)
      in st\<lparr>blockMapState := m2, lastRootBlock := get m2 (key block)\<rparr>)"

definition linkParent :: "string \<Rightarrow> content_block_node \<Rightarrow> rekey_state \<Rightarrow> rekey_state" where
  "linkParent newKey block st =
     (case parent block of
        None \<Rightarrow> chainRoot newKey block st
      | Some parentKey \<Rightarrow>
          if parentKey = [] then chainRoot newKey block st
          else (case get (blockMapState st) parentKey of
                  None \<Rightarrow> chainRoot newKey block st
                | Some parentBlock \<Rightarrow>
                    let parentChildrenList = children parentBlock
                    in st\<lparr>blockMapState :=
                           setIn_children (blockMapState st) parentKey
                             (List_set parentChildrenList
                                (indexOf parentChildrenList (key block)) newKey)\<rparr>))"

text \<open>Lines 92 to 102: the children; the filter is on the children of the visited block.\<close>

fun linkChildren ::
  "string \<Rightarrow> content_block_node \<Rightarrow> string list \<Rightarrow> content_block_node list
     \<Rightarrow> content_block_node list" where
  "linkChildren newKey block [] m = m"
| "linkChildren newKey block (childKey # childrenKeys) m =
     linkChildren newKey block childrenKeys
       (case get m childKey of
          Some childBlock \<Rightarrow> setIn_parent m childKey (Some newKey)
        | None \<Rightarrow>
            setIn_children m (key block)
              (filter (\<lambda>child. child \<noteq> childKey) (children block)))"

definition visitBlock :: "string \<Rightarrow> content_block_node \<Rightarrow> rekey_state \<Rightarrow> rekey_state" where
  "visitBlock newKey block st =
     (let st1 = st\<lparr>newKeysRef := newKeysRef_set (newKeysRef st) (key block) newKey\<rparr>;
          st2 = st1\<lparr>blockMapState := linkNext newKey block (blockMapState st1)\<rparr>;
          st3 = st2\<lparr>blockMapState := linkPrev newKey block (blockMapState st2)\<rparr>;
          st4 = linkParent newKey block st3
      in st4\<lparr>blockMapState :=
               linkChildren newKey block (children block) (blockMapState st4)\<rparr>)"

text \<open>
  \<^verbatim>\<open>blockMapState.forEach\<close> inside \<^verbatim>\<open>withMutations\<close>: the traversal goes over the
  entries that the map had when the traversal began, so each visited \<open>block\<close> is the
  block of the input map, while \<open>get\<close> and \<open>setIn\<close> work on the map as mutated so far.
\<close>

fun visitBlocks ::
  "(nat \<Rightarrow> string) \<Rightarrow> nat \<Rightarrow> content_block_node list \<Rightarrow> rekey_state \<Rightarrow> rekey_state" where
  "visitBlocks gen i [] st = st"
| "visitBlocks gen i (block # blocks) st =
     visitBlocks gen (Suc i) blocks (visitBlock (gen i) block st)"

text \<open>
  \<^verbatim>\<open>newKeysRef[block.getKey()]\<close> as the new key of a block (lines 106 to 109). The pass
  has recorded the key of every block, so the lookup does not miss; a miss is written
  here as the text of JavaScript's \<^verbatim>\<open>undefined\<close>.
\<close>

definition newKeyOf :: "(string \<rightharpoonup> string) \<Rightarrow> string \<Rightarrow> string" where
  "newKeyOf ref k = (case newKeysRef_get ref k of Some k' \<Rightarrow> k' | None \<Rightarrow> ''undefined'')"

definition randomizeContentBlockNodeKeys ::
  "(nat \<Rightarrow> string) \<Rightarrow> content_block_node list \<Rightarrow> content_block_node list" where
  "randomizeContentBlockNodeKeys gen blockMap =
     (let st = visitBlocks gen 0 blockMap
                 \<lparr>blockMapState = blockMap, newKeysRef = Map.empty, lastRootBlock = None\<rparr>
      in OrderedMap_of
           (map (\<lambda>block. block\<lparr>key := newKeyOf (newKeysRef st) (key block)\<rparr>)
              (blockMapState st)))"

text \<open>
  Lines 122 to 130: \<^verbatim>\<open>blockMap.first() instanceof ContentBlockNode\<close> fails on an empty
  map, which then takes the flat path.
\<close>

fun randomizeBlockMapKeys :: "(nat \<Rightarrow> string) \<Rightarrow> block_map \<Rightarrow> block_map" where
  "randomizeBlockMapKeys gen (ContentBlocks blockMap) =
     ContentBlocks (randomizeContentBlockKeys gen blockMap)"
| "randomizeBlockMapKeys gen (ContentBlockNodes []) =
     ContentBlockNodes (randomizeContentBlockKeys gen [])"
| "randomizeBlockMapKeys gen (ContentBlockNodes (block # blocks)) =
     ContentBlockNodes (randomizeContentBlockNodeKeys gen (block # blocks))"

text \<open>Blocks and key generators for concrete runs.\<close>

definition node ::
  "string \<Rightarrow> string option \<Rightarrow> string list \<Rightarrow> string option \<Rightarrow> string option
     \<Rightarrow> content_block_node" where
  "node k p cs pr nx =
     \<lparr>key = k, blockText = k, parent = p, children = cs, prevSibling = pr,
      nextSibling = nx\<rparr>"

definition numbered :: "nat \<Rightarrow> string" where
  "numbered i = replicate (Suc i) CHR ''n''"



section \<open>Tree-structured block maps\<close>

text \<open>
  Whether a key is a key of the map, the place of a key in the map, and the key that the
  block with a given old key receives: the pass gives the \<open>i\<close>-th block the \<open>i\<close>-th
  generated key.
\<close>

definition present :: "content_block_node list \<Rightarrow> string \<Rightarrow> bool" where
  "present m k = (k \<in> set (map key m))"

definition position :: "content_block_node list \<Rightarrow> string \<Rightarrow> nat" where
  "position m k = length (takeWhile (\<lambda>b. key b \<noteq> k) m)"

definition newKey :: "(nat \<Rightarrow> string) \<Rightarrow> content_block_node list \<Rightarrow> string \<Rightarrow> string" where
  "newKey gen m k = gen (position m k)"

text \<open>
  The blocks of \<open>pre\<close> that the pass treats as roots of the map \<open>m\<close> (line 67 fails for
  them), in map order, and the neighbour of a key in such a list.
\<close>

definition rootKeys :: "content_block_node list \<Rightarrow> content_block_node list \<Rightarrow> string list" where
  "rootKeys m pre = map key (filter (\<lambda>b. \<not> hasParentIn m b) pre)"

fun succ_in :: "string list \<Rightarrow> string \<Rightarrow> string option" where
  "succ_in [] k = None"
| "succ_in [x] k = None"
| "succ_in (x # y # ys) k = (if x = k then Some y else succ_in (y # ys) k)"

fun pred_in :: "string list \<Rightarrow> string \<Rightarrow> string option" where
  "pred_in [] k = None"
| "pred_in [x] k = None"
| "pred_in (x # y # ys) k = (if y = k then Some x else pred_in (y # ys) k)"

text \<open>
  The invariants of a tree-structured block map or fragment (section 3 of the
  specification): keys are unique and are non-empty strings, as are sibling references,
  and no key is \<^verbatim>\<open>__proto__\<close>;
  a block lists a child once; among the blocks of the map, \<open>x\<close> names \<open>y\<close> as next
  sibling exactly when \<open>y\<close> names \<open>x\<close> as previous sibling, and \<open>x\<close> lists \<open>y\<close> as a
  child exactly when \<open>y\<close> names \<open>x\<close> as parent; and where a sibling link of a root
  resolves in the map, it is the neighbouring root of the map order. References to keys
  outside the map are allowed.
\<close>

definition resolves_to :: "content_block_node list \<Rightarrow> string option \<Rightarrow> string option \<Rightarrow> bool" where
  "resolves_to m link target =
     (case link of
        None \<Rightarrow> True
      | Some k \<Rightarrow> (case target of None \<Rightarrow> True | Some r \<Rightarrow> present m k \<longrightarrow> k = r))"

definition wf_tree :: "content_block_node list \<Rightarrow> bool" where
  "wf_tree m =
     (distinct (map key m) \<and>
      list_all (\<lambda>b. key b \<noteq> [] \<and> key b \<noteq> ''__proto__'' \<and>
                    nextSibling b \<noteq> Some [] \<and> prevSibling b \<noteq> Some [] \<and>
                    distinct (children b)) m \<and>
      list_all (\<lambda>x. list_all (\<lambda>y.
          (nextSibling x = Some (key y)) = (prevSibling y = Some (key x)) \<and>
          (key y \<in> set (children x)) = (parent y = Some (key x))) m) m \<and>
      list_all (\<lambda>x.
          resolves_to m (nextSibling x) (succ_in (rootKeys m m) (key x)) \<and>
          resolves_to m (prevSibling x) (pred_in (rootKeys m m) (key x))) m)"

text \<open>
  The links of the block \<open>x\<close> of the input map \<open>m\<close> once the pass has visited the
  blocks \<open>pre\<close>, a prefix of \<open>m\<close>: links to visited blocks carry new keys, links to
  blocks still to come carry old keys, and the links that the visit of \<open>x\<close> itself
  nulls are nulled when \<open>x\<close> is in \<open>pre\<close>.
\<close>

definition nextAfter :: "(nat \<Rightarrow> string) \<Rightarrow> content_block_node list \<Rightarrow> content_block_node list
    \<Rightarrow> content_block_node \<Rightarrow> string option" where
  "nextAfter gen m pre x =
     (let chained = (\<lambda>d. case succ_in (rootKeys m pre) (key x) of
                          Some r \<Rightarrow> Some (newKey gen m r) | None \<Rightarrow> d)
      in case nextSibling x of
           None \<Rightarrow> chained None
         | Some y \<Rightarrow>
             if present m y then (if present pre y then Some (newKey gen m y) else Some y)
             else chained (if present pre (key x) then None else Some y))"

definition prevAfter :: "(nat \<Rightarrow> string) \<Rightarrow> content_block_node list \<Rightarrow> content_block_node list
    \<Rightarrow> content_block_node \<Rightarrow> string option" where
  "prevAfter gen m pre x =
     (let chained = map_option (newKey gen m) (pred_in (rootKeys m pre) (key x))
      in case prevSibling x of
           None \<Rightarrow> (if present pre (key x) then chained else None)
         | Some y \<Rightarrow>
             if present m y then (if present pre y then Some (newKey gen m y) else Some y)
             else (if present pre (key x) then chained else Some y))"

definition parentAfter :: "(nat \<Rightarrow> string) \<Rightarrow> content_block_node list \<Rightarrow> content_block_node list
    \<Rightarrow> content_block_node \<Rightarrow> string option" where
  "parentAfter gen m pre x =
     (if hasParentIn m x
      then map_option (\<lambda>p. if present pre p then newKey gen m p else p) (parent x)
      else if present pre (key x) then None else parent x)"

definition childrenAfter :: "(nat \<Rightarrow> string) \<Rightarrow> content_block_node list \<Rightarrow> content_block_node list
    \<Rightarrow> content_block_node \<Rightarrow> string list" where
  "childrenAfter gen m pre x = map (\<lambda>c. if present pre c then newKey gen m c else c) (children x)"

definition lastOpt :: "'a list \<Rightarrow> 'a option" where
  "lastOpt xs = (if xs = [] then None else Some (last xs))"

text \<open>The invariant of the pass after the blocks \<open>pre\<close>.\<close>

definition pass_inv :: "(nat \<Rightarrow> string) \<Rightarrow> content_block_node list \<Rightarrow> content_block_node list
    \<Rightarrow> rekey_state \<Rightarrow> bool" where
  "pass_inv gen m pre st =
     (map key (blockMapState st) = map key m \<and>
      (\<forall>k. present pre k \<longrightarrow> newKeysRef st k = Some (newKey gen m k)) \<and>
      map_option key (lastRootBlock st) = lastOpt (rootKeys m pre) \<and>
      (\<forall>x \<in> set m. \<exists>c. get (blockMapState st) (key x) = Some c \<and>
          blockText c = blockText x \<and>
          nextSibling c = nextAfter gen m pre x \<and>
          prevSibling c = prevAfter gen m pre x \<and>
          parent c = parentAfter gen m pre x \<and>
          (list_all (present m) (children x) \<longrightarrow> children c = childrenAfter gen m pre x)))"

text \<open>A link that is set and names no block of the map (lines 51 to 54, 61 to 64).\<close>

definition dangling :: "content_block_node list \<Rightarrow> string option \<Rightarrow> bool" where
  "dangling m l = (case l of None \<Rightarrow> False | Some n \<Rightarrow> n \<noteq> [] \<and> get m n = None)"

text \<open>One step of the pass: the block \<open>B\<close> is visited after the blocks \<open>pre\<close>.\<close>

definition step_ctx :: "(nat \<Rightarrow> string) \<Rightarrow> content_block_node list \<Rightarrow> content_block_node list
    \<Rightarrow> content_block_node \<Rightarrow> content_block_node list \<Rightarrow> bool" where
  "step_ctx gen m pre B rest =
     (wf_tree m \<and> fresh_keys gen (length m) (map key m) \<and> m = pre @ B # rest)"

text \<open>
  Scenario B of the specification, and a fragment of two orphans: \<open>g\<close> is a child of the
  absent \<open>c1\<close>, and \<open>c2\<close> is a child of the absent \<open>P\<close> whose previous sibling is the
  absent \<open>c1\<close>.
\<close>

definition scenario_B :: "content_block_node list" where
  "scenario_B =
     [node ''A'' None [''B'', ''C''] None None,
      node ''B'' (Some ''A'') [] None (Some ''C''),
      node ''C'' (Some ''A'') [] (Some ''B'') None]"

definition orphans :: "content_block_node list" where
  "orphans =
     [node ''g'' (Some ''c1'') [] None None,
      node ''c2'' (Some ''P'') [] (Some ''c1'') None]"

section \<open>Composition: auxiliary facts\<close>

lemma updates_simps [simp]:
  "updates [] = []"
  "updates (Update s # cs) = s # updates cs"
  "updates (RestoreEditorDOM # cs) = updates cs"
  "updates (ExitCurrentMode # cs) = updates cs"
  "updates (ForwardKeyDown k # cs) = updates cs"
  "updates (OnFocusCallback # cs) = updates cs"
  "updates (PreventDefault # cs) = updates cs"
  "updates (RemoveRange c r d # cs) = updates cs"
  "updates (ReplaceText c r t y e # cs) = updates cs"
  by (simp_all add: updates_def)

lemma updates_append [simp]: "updates (xs @ ys) = updates xs @ updates ys"
  by (simp add: updates_def)

lemma filter_modifier_simps [simp]:
  "is_modifier (RemoveRange c r d)" "is_modifier (ReplaceText c r t y e)"
  "\<not> is_modifier RestoreEditorDOM" "\<not> is_modifier ExitCurrentMode"
  "\<not> is_modifier (Update s)" "\<not> is_modifier (ForwardKeyDown k)"
  "\<not> is_modifier OnFocusCallback" "\<not> is_modifier PreventDefault"
  by (simp_all add: is_modifier_def)

lemma removeFormer_cases:
  "removeFormer E s f =
     (if isAndroid E \<and> f \<noteq> [] \<and> isCollapsed E (selection s) then
        (removeRange E (currentContent s)
           ((selection s)\<lparr>anchorOffset := max 0 (anchorOffset (selection s) - int (length f))\<rparr>)
           Backward,
         selectionAfter (removeRange E (currentContent s)
           ((selection s)\<lparr>anchorOffset := max 0 (anchorOffset (selection s) - int (length f))\<rparr>)
           Backward),
         [RemoveRange (currentContent s)
           ((selection s)\<lparr>anchorOffset := max 0 (anchorOffset (selection s) - int (length f))\<rparr>)
           Backward])
      else (currentContent s, selection s, []))"
  by (simp add: removeFormer_def Let_def max_def)

lemma resolveComposition_unfold:
  "\<not> stillComposing w \<Longrightarrow>
   resolveComposition E w =
     (let chars = textInputData w;
          s = snapshot w;
          w1 = w\<lparr>resolved := True, textInputData := [], formerTextInputData := []\<rparr>;
          pre = (if mustReset E s chars then [RestoreEditorDOM] else []) @ [ExitCurrentMode];
          r = removeFormer E s (formerTextInputData w);
          c1 = fst r; sel1 = fst (snd r); rm = snd (snd r);
          sty = getCurrentInlineStyle E s;
          ent = getEntityKeyForSelection E (currentContent s) (selection s)
      in if chars \<noteq> [] then
           let s' = push E s (remapSelectionAfter E (domSelection w) sel1
                                (replaceText E c1 sel1 chars sty ent)) InsertCharacters
           in (w1\<lparr>editor := (editor w)\<lparr>latestEditorState := s'\<rparr>\<rparr>,
               pre @ rm @ [ReplaceText c1 sel1 chars sty ent, Update s'])
         else
           let s' = s\<lparr>nativelyRenderedContent := None, forceSelection := True\<rparr>
           in (w1\<lparr>editor := (editor w)\<lparr>latestEditorState := s'\<rparr>\<rparr>,
               pre @ rm @ [Update s']))"
  by (simp add: resolveComposition_def snapshot_def Let_def update_def mustReset_def
           split: prod.splits)

lemma updates_removeFormer [simp]: "updates (snd (snd (removeFormer E s f))) = []"
  by (simp add: removeFormer_cases)












section \<open>editOnFocus: the focus handler\<close>

text \<open>
  Claim C10. When the model selection already has the focus flag, \<^verbatim>\<open>editOnFocus\<close> makes
  no call and leaves the editor as it is. Otherwise it makes exactly one \<^verbatim>\<open>update\<close>,
  with \<^verbatim>\<open>EditorState.forceSelection\<close> of the latest editor state and the prior
  selection with the focus flag set, and the user's \<^verbatim>\<open>onFocus\<close> callback, when there
  is one, is called before that update.
\<close>

theorem editOnFocus_spec:
  "editOnFocus E ed =
     (if hasFocus (selection (latestEditorState ed)) then (ed, [])
      else
        let s = forceSelection_fn E (latestEditorState ed)
                  ((selection (latestEditorState ed))\<lparr>hasFocus := True\<rparr>)
        in (ed\<lparr>latestEditorState := s\<rparr>,
            (if hasOnFocusProp ed then [OnFocusCallback] else []) @ [Update s]))"
  by (simp add: editOnFocus_def update_def Let_def)

theorem editOnFocus_spec_witness:
  "snd (editOnFocus (plain_env False) (plain_doc ''hello'' 3 True)) = [] \<and>
   fst (editOnFocus (plain_env False) (plain_doc ''hello'' 3 True)) = plain_doc ''hello'' 3 True \<and>
   snd (editOnFocus (plain_env False) (plain_doc ''hello'' 3 False)) =
     [OnFocusCallback,
      Update ((latestEditorState (plain_doc ''hello'' 3 False))
                \<lparr>selection := caret 3 True, nativelyRenderedContent := None,
                  forceSelection := True\<rparr>)]"
  using editOnFocus_spec [of "plain_env False" "plain_doc ''hello'' 3 True"]
        editOnFocus_spec [of "plain_env False" "plain_doc ''hello'' 3 False"]
  by (simp add: plain_env_def plain_doc_def caret_def Let_def)

section \<open>Composition: resolution\<close>

text \<open>
  Claim C9. A call of \<^verbatim>\<open>resolveComposition\<close> that passes the \<^verbatim>\<open>stillComposing\<close>
  guard makes exactly one \<^verbatim>\<open>update\<close> call. With composed characters it is the push of
  the insertion, tagged \<^verbatim>\<open>insert-characters\<close>; without, \<^verbatim>\<open>mustReset\<close> holds and it
  is the reset update (\<^verbatim>\<open>nativelyRenderedContent\<close> null, \<^verbatim>\<open>forceSelection\<close> true).
\<close>

theorem resolveComposition_one_update:
  assumes "\<not> stillComposing w"
  shows "length (updates (snd (resolveComposition E w))) = 1 \<and>
         (textInputData w \<noteq> [] \<longrightarrow>
            updates (snd (resolveComposition E w)) =
              [push E (snapshot w)
                 (remapSelectionAfter E (domSelection w)
                    (fst (snd (removeFormer E (snapshot w) (formerTextInputData w))))
                    (replaceText E
                       (fst (removeFormer E (snapshot w) (formerTextInputData w)))
                       (fst (snd (removeFormer E (snapshot w) (formerTextInputData w))))
                       (textInputData w)
                       (getCurrentInlineStyle E (snapshot w))
                       (getEntityKeyForSelection E (currentContent (snapshot w))
                          (selection (snapshot w)))))
                 InsertCharacters]) \<and>
         (textInputData w = [] \<longrightarrow>
            mustReset E (snapshot w) (textInputData w) \<and>
            updates (snd (resolveComposition E w)) =
              [(snapshot w)\<lparr>nativelyRenderedContent := None, forceSelection := True\<rparr>])"
  using assms by (simp add: resolveComposition_unfold Let_def mustReset_def)

theorem resolveComposition_one_update_witness:
  "\<not> stillComposing (typing ''hello'' 3 (3, 3) ''a'' []) \<and>
   map getBlockMap (map currentContent
     (updates (snd (resolveComposition (plain_env False)
                      (typing ''hello'' 3 (3, 3) ''a'' []))))) = [''helalo''] \<and>
   \<not> stillComposing (typing ''hello'' 3 (3, 3) [] []) \<and>
   map forceSelection
     (updates (snd (resolveComposition (plain_env False)
                      (typing ''hello'' 3 (3, 3) [] [])))) = [True]"
  using resolveComposition_one_update [of "typing ''hello'' 3 (3, 3) ''a'' []" "plain_env False"]
        resolveComposition_one_update [of "typing ''hello'' 3 (3, 3) [] []" "plain_env False"]
  by (simp add: typing_def initial_world_def plain_env_def plain_doc_def snapshot_def caret_def removeFormer_def
        remapSelectionAfter_def plain_replaceText_def Let_def)

text \<open>
  Claim C5. In a call of \<^verbatim>\<open>resolveComposition\<close> that passes the \<^verbatim>\<open>stillComposing\<close>
  guard, \<^verbatim>\<open>mustReset\<close> holds and the rendered surface is restored (\<^verbatim>\<open>restoreEditorDOM\<close>) exactly when the composed
  characters are empty, or the selection is at the start of a leaf, or the current inline
  style is not empty, or an entity key is active at the selection; the restore comes
  first, and \<^verbatim>\<open>exitCurrentMode\<close> follows in every case, once.
\<close>

theorem mustReset_restores_before_exit:
  assumes "\<not> stillComposing w"
  shows "mustReset E (snapshot w) (textInputData w) =
           (textInputData w = [] \<or>
            isSelectionAtLeafStart E (snapshot w) \<or>
            getCurrentInlineStyle E (snapshot w) \<noteq> [] \<or>
            getEntityKeyForSelection E (currentContent (snapshot w))
              (selection (snapshot w)) \<noteq> None) \<and>
         (\<exists>rest. snd (resolveComposition E w) =
           (if textInputData w = [] \<or>
               isSelectionAtLeafStart E (snapshot w) \<or>
               getCurrentInlineStyle E (snapshot w) \<noteq> [] \<or>
               getEntityKeyForSelection E (currentContent (snapshot w))
                 (selection (snapshot w)) \<noteq> None
            then [RestoreEditorDOM] else []) @ ExitCurrentMode # rest \<and>
           RestoreEditorDOM \<notin> set rest \<and> ExitCurrentMode \<notin> set rest)"
  using assms
  by (auto simp add: resolveComposition_unfold Let_def mustReset_def removeFormer_cases)

theorem mustReset_restores_before_exit_witness:
  "\<not> stillComposing (typing ''hello'' 0 (0, 0) ''a'' []) \<and>
   take 2 (snd (resolveComposition (plain_env False) (typing ''hello'' 0 (0, 0) ''a'' []))) =
     [RestoreEditorDOM, ExitCurrentMode] \<and>
   \<not> stillComposing (typing ''hello'' 3 (3, 3) ''a'' []) \<and>
   take 1 (snd (resolveComposition (plain_env False) (typing ''hello'' 3 (3, 3) ''a'' []))) =
     [ExitCurrentMode]"
  using mustReset_restores_before_exit [of "typing ''hello'' 0 (0, 0) ''a'' []" "plain_env False"]
        mustReset_restores_before_exit [of "typing ''hello'' 3 (3, 3) ''a'' []" "plain_env False"]
  by (auto simp add: typing_def initial_world_def plain_env_def plain_doc_def snapshot_def caret_def)

text \<open>
  Claim C3, as the code has it. After a resolution that passed the guard, the session is
  cleared (\<^verbatim>\<open>resolved\<close> true, \<^verbatim>\<open>stillComposing\<close> false, both buffers empty). A timer
  that fires then is absorbed by the \<^verbatim>\<open>resolved\<close> guard of its callback and makes no
  call. A second direct call of \<^verbatim>\<open>resolveComposition\<close> (the one \<^verbatim>\<open>onKeyDown\<close> makes)
  passes the \<^verbatim>\<open>stillComposing\<close> guard: it inserts nothing and calls no
  \<^verbatim>\<open>DraftModifier\<close> function, but it restores the rendered surface, leaves the
  composition mode and makes one reset update of the unchanged document.
\<close>

theorem second_resolution_resets_only:
  assumes "\<not> stillComposing w0"
  shows "let w1 = fst (resolveComposition E w0)
         in resolved w1 \<and> \<not> stillComposing w1 \<and> textInputData w1 = [] \<and>
            formerTextInputData w1 = [] \<and>
            snd (resolveComposition E w1) =
              [RestoreEditorDOM, ExitCurrentMode,
               Update ((snapshot w1)\<lparr>nativelyRenderedContent := None,
                                      forceSelection := True\<rparr>)] \<and>
            snd (fireTimer E w1 i) = []"
  using assms
  by (auto simp add: resolveComposition_unfold Let_def mustReset_def removeFormer_cases
        fireTimer_def clearTimeout_def split: option.splits timer_task.splits)

theorem second_resolution_resets_only_witness:
  "\<not> stillComposing (typing ''hello'' 3 (3, 3) ''a'' []) \<and>
   snd (resolveComposition (plain_env False)
          (fst (resolveComposition (plain_env False) (typing ''hello'' 3 (3, 3) ''a'' [])))) =
     [RestoreEditorDOM, ExitCurrentMode,
      Update ((snapshot (fst (resolveComposition (plain_env False)
                                (typing ''hello'' 3 (3, 3) ''a'' []))))
                \<lparr>nativelyRenderedContent := None, forceSelection := True\<rparr>)]"
  using second_resolution_resets_only [of "typing ''hello'' 3 (3, 3) ''a'' []" "plain_env False"]
  by (simp add: typing_def initial_world_def Let_def)

text \<open>
  The claim as stated fails: here a first resolution has completed and the session is
  cleared, and a second call of \<^verbatim>\<open>resolveComposition\<close> makes a further update.
\<close>

theorem second_resolution_updates_again:
  "resolved (fst (resolveComposition (plain_env False) (typing ''hello'' 3 (3, 3) ''a'' []))) \<and>
   \<not> stillComposing
       (fst (resolveComposition (plain_env False) (typing ''hello'' 3 (3, 3) ''a'' []))) \<and>
   textInputData
       (fst (resolveComposition (plain_env False) (typing ''hello'' 3 (3, 3) ''a'' []))) = [] \<and>
   formerTextInputData
       (fst (resolveComposition (plain_env False) (typing ''hello'' 3 (3, 3) ''a'' []))) = [] \<and>
   length (updates (snd (resolveComposition (plain_env False)
     (fst (resolveComposition (plain_env False) (typing ''hello'' 3 (3, 3) ''a'' [])))))) = 1"
  by (simp add: typing_def initial_world_def plain_env_def plain_doc_def snapshot_def caret_def resolveComposition_def
        removeFormer_def mustReset_def update_def remapSelectionAfter_def
        plain_replaceText_def Let_def)

section \<open>Composition: a restart before the end timer fires\<close>




section \<open>Composition: the Android paths\<close>

text \<open>
  Claim C6, as the code has it. On Android, take a resolution with a collapsed selection
  that inserts composed characters. With non-empty former characters
  \<^verbatim>\<open>removeRange\<close> is called first, backward, on the current content and the selection
  with its anchor offset moved back by the length of the former characters, not below
  zero; the insertion is made on the content that the removal returned, at the selection
  after that removal. With empty former characters the range would be empty and no
  removal is made: the insertion is made on the current content at the current
  selection. The content pushed is the result of that insertion, with its recorded
  selections remapped as lines 229 to 237 have it.
\<close>

theorem speculative_delta_removal:
  assumes "isAndroid E" "\<not> stillComposing w" "isCollapsed E (selection (snapshot w))"
    "textInputData w \<noteq> []"
  shows "let s = snapshot w;
             former = formerTextInputData w;
             range = (selection s)\<lparr>anchorOffset :=
                        max 0 (anchorOffset (selection s) - int (length former))\<rparr>;
             c1 = (if former \<noteq> [] then removeRange E (currentContent s) range Backward
                   else currentContent s);
             sel1 = (if former \<noteq> [] then selectionAfter c1 else selection s);
             sty = getCurrentInlineStyle E s;
             ent = getEntityKeyForSelection E (currentContent s) (selection s)
         in filter is_modifier (snd (resolveComposition E w)) =
              (if former \<noteq> [] then [RemoveRange (currentContent s) range Backward] else []) @
              [ReplaceText c1 sel1 (textInputData w) sty ent] \<and>
            updates (snd (resolveComposition E w)) =
              [push E s
                 (remapSelectionAfter E (domSelection w) sel1
                    (replaceText E c1 sel1 (textInputData w) sty ent))
                 InsertCharacters]"
  using assms
  by (simp add: resolveComposition_unfold Let_def removeFormer_cases)

theorem speculative_delta_removal_witness:
  "isAndroid (plain_env True) \<and> \<not> stillComposing (typing ''helo'' 4 (4, 4) ''lo'' ''o'') \<and>
   isCollapsed (plain_env True) (selection (snapshot (typing ''helo'' 4 (4, 4) ''lo'' ''o''))) \<and>
   map getBlockMap (map currentContent
     (updates (snd (resolveComposition (plain_env True)
                      (typing ''helo'' 4 (4, 4) ''lo'' ''o''))))) = [''hello''] \<and>
   isCollapsed (plain_env True) (selection (snapshot (typing ''hel'' 3 (3, 3) ''lo'' []))) \<and>
   map getBlockMap (map currentContent
     (updates (snd (resolveComposition (plain_env True)
                      (typing ''hel'' 3 (3, 3) ''lo'' []))))) = [''hello'']"
  using speculative_delta_removal [of "plain_env True" "typing ''helo'' 4 (4, 4) ''lo'' ''o''"]
        speculative_delta_removal [of "plain_env True" "typing ''hel'' 3 (3, 3) ''lo'' []"]
  by (simp add: typing_def initial_world_def plain_env_def plain_doc_def snapshot_def
        caret_def plain_removeRange_def plain_replaceText_def remapSelectionAfter_def Let_def)

text \<open>
  The claim as stated fails when nothing was composed: on Android, with a collapsed
  selection at offset 4 of \<open>helo\<close> and the former character \<open>o\<close>, the removal of
  the range from 3 to 4 would leave \<open>hel\<close>, but its result is dropped and the one
  update of the resolution carries the content \<open>helo\<close> as it was.
\<close>

theorem discarded_removal_leaves_content:
  "isAndroid (plain_env True) \<and>
   \<not> stillComposing (typing ''helo'' 4 (4, 4) [] ''o'') \<and>
   isCollapsed (plain_env True) (selection (snapshot (typing ''helo'' 4 (4, 4) [] ''o''))) \<and>
   getBlockMap (removeRange (plain_env True)
                  (currentContent (snapshot (typing ''helo'' 4 (4, 4) [] ''o'')))
                  ((selection (snapshot (typing ''helo'' 4 (4, 4) [] ''o'')))
                     \<lparr>anchorOffset := max 0 (4 - int (length ''o''))\<rparr>)
                  Backward) = ''hel'' \<and>
   map getBlockMap (map currentContent
     (updates (snd (resolveComposition (plain_env True)
                      (typing ''helo'' 4 (4, 4) [] ''o''))))) = [''helo'']"
  by (simp add: typing_def initial_world_def plain_env_def plain_doc_def snapshot_def
        caret_def resolveComposition_def removeFormer_def mustReset_def update_def
        plain_removeRange_def Let_def)

text \<open>
  Claim C7, as the code has it. On Android, a resolution that inserts composed characters
  pushes the content returned by \<^verbatim>\<open>replaceText\<close> unchanged unless the anchor offset of
  its selection after exceeds the native anchor offset. In that case the block map is
  still the one \<^verbatim>\<open>replaceText\<close> returned, and the selection after handed to the push
  is the selection used for the insertion with its anchor offset set to the smaller and
  its focus offset to the larger of the two native offsets.
\<close>

theorem selection_after_remap:
  assumes "isAndroid E" "\<not> stillComposing w" "textInputData w \<noteq> []"
  shows "let s = snapshot w;
             r = removeFormer E s (formerTextInputData w);
             sel1 = fst (snd r);
             c2 = replaceText E (fst r) sel1 (textInputData w) (getCurrentInlineStyle E s)
                    (getEntityKeyForSelection E (currentContent s) (selection s));
             a = fst (domSelection w); f = snd (domSelection w);
             c3 = remapSelectionAfter E (domSelection w) sel1 c2
         in updates (snd (resolveComposition E w)) = [push E s c3 InsertCharacters] \<and>
            getBlockMap c3 = getBlockMap c2 \<and>
            selectionAfter c3 =
              (if anchorOffset (selectionAfter c2) > a
               then sel1\<lparr>anchorOffset := min a f, focusOffset := max a f\<rparr>
               else selectionAfter c2) \<and>
            (\<not> anchorOffset (selectionAfter c2) > a \<longrightarrow> c3 = c2)"
  using assms
  by (simp add: resolveComposition_unfold Let_def remapSelectionAfter_def split_beta
        min_def max_def)

theorem selection_after_remap_witness:
  "isAndroid (plain_env True) \<and> \<not> stillComposing (typing ''hello world'' 7 (2, 5) ''a'' []) \<and>
   map recorded_offsets
     (updates (snd (resolveComposition (plain_env True)
                      (typing ''hello world'' 7 (2, 5) ''a'' [])))) = [(2, 5)]"
  using selection_after_remap [of "plain_env True" "typing ''hello world'' 7 (2, 5) ''a'' []"]
  by (simp add: typing_def initial_world_def plain_env_def plain_doc_def snapshot_def
        caret_def removeFormer_def plain_replaceText_def recorded_offsets_def Let_def)

text \<open>
  The claim as stated fails for a backward native selection: the native anchor is 5 and
  the native focus is 2, and the recorded selection after has anchor 2 and focus 5.
\<close>

theorem backward_native_selection_is_reordered:
  "isAndroid (plain_env True) \<and>
   domSelection (typing ''hello world'' 7 (5, 2) ''a'' []) = (5, 2) \<and>
   map recorded_offsets
     (updates (snd (resolveComposition (plain_env True)
                      (typing ''hello world'' 7 (5, 2) ''a'' [])))) = [(2, 5)]"
  by (simp add: typing_def initial_world_def plain_env_def plain_doc_def snapshot_def
        caret_def resolveComposition_def removeFormer_def mustReset_def update_def
        remapSelectionAfter_def plain_replaceText_def recorded_offsets_def Let_def)

section \<open>Rekeying a flat block map\<close>

lemma OrderedMap_fold_distinct:
  "distinct (map key (acc @ bs)) \<Longrightarrow> foldl OrderedMap_set acc bs = acc @ bs"
proof (induction bs arbitrary: acc)
  case Nil
  then show ?case by simp
next
  case (Cons b bs)
  have "key b \<notin> set (map key acc)" using Cons.prems by auto
  then have "OrderedMap_set acc b = acc @ [b]" by (simp add: OrderedMap_set_def)
  moreover have "distinct (map key ((acc @ [b]) @ bs))" using Cons.prems by simp
  ultimately show ?case using Cons.IH[of "acc @ [b]"] by simp
qed

lemma OrderedMap_of_distinct: "distinct (map key bs) \<Longrightarrow> OrderedMap_of bs = bs"
  using OrderedMap_fold_distinct[of "[]" bs] by (simp add: OrderedMap_of_def)

lemma rekey_from_keys: "map key (rekey_from gen i bs) = map gen [i..<i + length bs]"
proof (induction bs arbitrary: i)
  case Nil
  then show ?case by simp
next
  case (Cons b bs)
  show ?case using Cons.IH[of "Suc i"] by (simp add: upt_rec)
qed

lemma rekey_from_text: "map blockText (rekey_from gen i bs) = map blockText bs"
  by (induction bs arbitrary: i) simp_all

lemma rekey_from_length: "length (rekey_from gen i bs) = length bs"
  by (induction bs arbitrary: i) simp_all

text \<open>
  Claim C8. With fresh keys from the generator, rekeying a flat block map returns a flat
  block map with as many blocks, the same texts in the same order, and keys that are
  pairwise distinct and are not keys of the input map.
\<close>

theorem flat_rekey:
  assumes "fresh_keys gen (length blocks) (map key blocks)"
  shows "\<exists>blocks'. randomizeBlockMapKeys gen (ContentBlocks blocks) = ContentBlocks blocks' \<and>
           length blocks' = length blocks \<and>
           map blockText blocks' = map blockText blocks \<and>
           distinct (map key blocks') \<and>
           set (map key blocks') \<inter> set (map key blocks) = {}"
proof -
  have k: "map key (rekey_from gen 0 blocks) = map gen [0..<length blocks]"
    using rekey_from_keys[of gen 0 blocks] by simp
  have d: "distinct (map key (rekey_from gen 0 blocks))"
    using assms k by (simp add: fresh_keys_def)
  have r: "randomizeContentBlockKeys gen blocks = rekey_from gen 0 blocks"
    using OrderedMap_of_distinct[OF d] by (simp add: randomizeContentBlockKeys_def)
  have disj: "set (map key (rekey_from gen 0 blocks)) \<inter> set (map key blocks) = {}"
    using assms unfolding k fresh_keys_def list_all_iff by auto
  show ?thesis
    using r d disj rekey_from_text[of gen 0 blocks] rekey_from_length[of gen 0 blocks]
    by simp
qed

theorem flat_rekey_witness:
  "fresh_keys numbered 2 [''a'', ''b''] \<and>
   randomizeBlockMapKeys numbered
     (ContentBlocks [\<lparr>key = ''a'', blockText = ''Hi''\<rparr>, \<lparr>key = ''b'', blockText = ''Bye''\<rparr>]) =
   ContentBlocks [\<lparr>key = ''n'', blockText = ''Hi''\<rparr>, \<lparr>key = ''nn'', blockText = ''Bye''\<rparr>]"
  using flat_rekey [of numbered
      "[\<lparr>key = ''a'', blockText = ''Hi''\<rparr>, \<lparr>key = ''b'', blockText = ''Bye''\<rparr>]"]
  by (simp add: fresh_keys_def numbered_def randomizeContentBlockKeys_def OrderedMap_of_def
        OrderedMap_set_def upt_rec)

section \<open>Rekeying a fragment whose children are outside the map\<close>

text \<open>
  Claim C2 at a block \<open>A\<close> whose two children \<open>P\<close> and \<open>Q\<close> are both outside the map:
  the rekeyed block still lists \<open>P\<close>, which is not a key of the produced map. Each
  absent child is filtered out of the children of the visited block as they were in the
  input, so the second write undoes the first.
\<close>

theorem two_absent_children_leave_one:
  "randomizeBlockMapKeys numbered
     (ContentBlockNodes [node ''A'' None [''P'', ''Q''] None None]) =
   ContentBlockNodes [node ''n'' None [''P''] None None\<lparr>blockText := ''A''\<rparr>]"
  by (simp add: randomizeContentBlockNodeKeys_def visitBlock_def linkNext_def linkPrev_def
        linkParent_def chainRoot_def hasParentIn_def get_def setIn_parent_def setIn_children_def
        OrderedMap_of_def OrderedMap_set_def newKeyOf_def newKeysRef_set_def newKeysRef_get_def node_def numbered_def Let_def)

section \<open>Rekeying a tree-structured block map\<close>

subsection \<open>Reading the map through the writes\<close>

lemma find_map_key_if:
  assumes "\<And>b. key (f b) = key b"
  shows "find (\<lambda>b. key b = k') (map (\<lambda>b. if key b = k then f b else b) m) =
         map_option (\<lambda>b. if k' = k then f b else b) (find (\<lambda>b. key b = k') m)"
  using assms by (induction m) auto

lemma get_setIn_parent:
  "get (setIn_parent m k v) k' =
     map_option (\<lambda>b. if k' = k then b\<lparr>parent := v\<rparr> else b) (get m k')"
  unfolding get_def setIn_parent_def by (rule find_map_key_if) simp

lemma get_setIn_children:
  "get (setIn_children m k v) k' =
     map_option (\<lambda>b. if k' = k then b\<lparr>children := v\<rparr> else b) (get m k')"
  unfolding get_def setIn_children_def by (rule find_map_key_if) simp

lemma get_setIn_prevSibling:
  "get (setIn_prevSibling m k v) k' =
     map_option (\<lambda>b. if k' = k then b\<lparr>prevSibling := v\<rparr> else b) (get m k')"
  unfolding get_def setIn_prevSibling_def by (rule find_map_key_if) simp

lemma get_setIn_nextSibling:
  "get (setIn_nextSibling m k v) k' =
     map_option (\<lambda>b. if k' = k then b\<lparr>nextSibling := v\<rparr> else b) (get m k')"
  unfolding get_def setIn_nextSibling_def by (rule find_map_key_if) simp

lemmas get_setIn = get_setIn_parent get_setIn_children get_setIn_prevSibling get_setIn_nextSibling

lemma keys_setIn [simp]:
  "map key (setIn_parent m k p) = map key m"
  "map key (setIn_children m k c) = map key m"
  "map key (setIn_prevSibling m k p) = map key m"
  "map key (setIn_nextSibling m k p) = map key m"
  by (simp_all add: setIn_parent_def setIn_children_def setIn_prevSibling_def
        setIn_nextSibling_def comp_def)

lemma get_None_iff: "get m k = None \<longleftrightarrow> k \<notin> set (map key m)"
  by (auto simp add: get_def find_None_iff)

lemma get_Some_key: "get m k = Some b \<Longrightarrow> key b = k \<and> b \<in> set m"
  by (auto simp add: get_def find_Some_iff)

lemma get_present: "present m k \<longleftrightarrow> get m k \<noteq> None"
  by (simp add: present_def get_None_iff)

lemma get_distinct:
  "distinct (map key m) \<Longrightarrow> x \<in> set m \<Longrightarrow> get m (key x) = Some x"
  by (induction m) (auto simp add: get_def)

lemma get_cong_keys:
  "map key m = map key m' \<Longrightarrow> (get m k = None) = (get m' k = None)"
  by (simp add: get_None_iff)

lemma keys_linkNext [simp]: "map key (linkNext nk B m) = map key m"
  by (simp add: linkNext_def split: option.splits)

lemma keys_linkPrev [simp]: "map key (linkPrev nk B m) = map key m"
  by (simp add: linkPrev_def split: option.splits)

lemma keys_linkChildren [simp]: "map key (linkChildren nk B cs m) = map key m"
  by (induction cs arbitrary: m) (simp_all split: option.splits)

lemma linkParent_unfold:
  "linkParent nk B st =
     (let m = blockMapState st
      in case (if hasParentIn m B
               then (case parent B of
                       Some parentKey \<Rightarrow> map_option (Pair parentKey) (get m parentKey)
                     | None \<Rightarrow> None)
               else None) of
           Some (parentKey, parentBlock) \<Rightarrow>
             st\<lparr>blockMapState :=
                  setIn_children m parentKey
                    (List_set (children parentBlock)
                       (indexOf (children parentBlock) (key B)) nk)\<rparr>
         | None \<Rightarrow>
             let m1 = setIn_parent m (key B) None;
                 m2 = (case lastRootBlock st of
                         Some lastRoot \<Rightarrow>
                           setIn_prevSibling
                             (setIn_nextSibling m1 (key lastRoot) (Some nk))
                             (key B) (newKeysRef_get (newKeysRef st) (key lastRoot))
                       | None \<Rightarrow> m1)
             in st\<lparr>blockMapState := m2, lastRootBlock := get m2 (key B)\<rparr>)"
  by (auto simp add: linkParent_def chainRoot_def hasParentIn_def Let_def split: option.splits)

lemma keys_linkParent [simp]:
  "map key (blockMapState (linkParent nk B st)) = map key (blockMapState st)"
  by (simp add: linkParent_unfold Let_def split: option.splits prod.splits)

lemma linkNext_get:
  assumes "get m k = Some c"
  shows "\<exists>c'. get (linkNext nk B m) k = Some c' \<and> blockText c' = blockText c \<and>
           parent c' = parent c \<and> children c' = children c \<and>
           nextSibling c' = (if k = key B \<and> dangling m (nextSibling B) then None
                             else nextSibling c) \<and>
           prevSibling c' = (if nextSibling B = Some k \<and> k \<noteq> [] then Some nk
                             else prevSibling c)"
  using assms
  by (auto simp add: linkNext_def dangling_def get_setIn split: option.splits)

lemma linkPrev_get:
  assumes "get m k = Some c"
  shows "\<exists>c'. get (linkPrev nk B m) k = Some c' \<and> blockText c' = blockText c \<and>
           parent c' = parent c \<and> children c' = children c \<and>
           prevSibling c' = (if k = key B \<and> dangling m (prevSibling B) then None
                             else prevSibling c) \<and>
           nextSibling c' = (if prevSibling B = Some k \<and> k \<noteq> [] then Some nk
                             else nextSibling c)"
  using assms
  by (auto simp add: linkPrev_def dangling_def get_setIn split: option.splits)

lemma linkChildren_get:
  assumes "get m k = Some c"
  shows "\<exists>c'. get (linkChildren nk B cs m) k = Some c' \<and> blockText c' = blockText c \<and>
           nextSibling c' = nextSibling c \<and> prevSibling c' = prevSibling c \<and>
           parent c' = (if k \<in> set cs then Some nk else parent c) \<and>
           (k \<noteq> key B \<or> list_all (\<lambda>x. get m x \<noteq> None) cs \<longrightarrow> children c' = children c)"
  using assms
proof (induction cs arbitrary: m c)
  case Nil
  then show ?case by simp
next
  case (Cons x cs)
  let ?m1 = "case get m x of
          Some childBlock \<Rightarrow> setIn_parent m x (Some nk)
        | None \<Rightarrow> setIn_children m (key B) (filter (\<lambda>child. child \<noteq> x) (children B))"
  have keys: "\<And>y. (get ?m1 y = None) = (get m y = None)"
    by (rule get_cong_keys) (simp split: option.splits)
  have "\<exists>c1. get ?m1 k = Some c1 \<and> blockText c1 = blockText c \<and>
      nextSibling c1 = nextSibling c \<and> prevSibling c1 = prevSibling c \<and>
      parent c1 = (if k = x then Some nk else parent c) \<and>
      (k \<noteq> key B \<or> get m x \<noteq> None \<longrightarrow> children c1 = children c)"
    using Cons.prems by (cases "get m x") (auto simp add: get_setIn)
  then obtain c1 where c1: "get ?m1 k = Some c1" "blockText c1 = blockText c"
      "nextSibling c1 = nextSibling c" "prevSibling c1 = prevSibling c"
      "parent c1 = (if k = x then Some nk else parent c)"
      "k \<noteq> key B \<or> get m x \<noteq> None \<longrightarrow> children c1 = children c"
    by blast
  from Cons.IH[OF c1(1)] obtain c' where c':
      "get (linkChildren nk B cs ?m1) k = Some c'" "blockText c' = blockText c1"
      "nextSibling c' = nextSibling c1" "prevSibling c' = prevSibling c1"
      "parent c' = (if k \<in> set cs then Some nk else parent c1)"
      "k \<noteq> key B \<or> list_all (\<lambda>x. get ?m1 x \<noteq> None) cs \<longrightarrow> children c' = children c1"
    by blast
  show ?case
    using c1 c' by (auto simp add: keys)
qed

lemma hasParentIn_cong:
  "map key m = map key m' \<Longrightarrow> hasParentIn m B = hasParentIn m' B"
  by (simp add: hasParentIn_def get_None_iff split: option.splits)

lemma dangling_cong:
  "map key m = map key m' \<Longrightarrow> dangling m l = dangling m' l"
  by (simp add: dangling_def get_None_iff split: option.splits)

lemma linkParent_get_child:
  assumes "get (blockMapState st) k = Some c" "hasParentIn (blockMapState st) B"
  shows "\<exists>c'. get (blockMapState (linkParent nk B st)) k = Some c' \<and>
           blockText c' = blockText c \<and> nextSibling c' = nextSibling c \<and>
           prevSibling c' = prevSibling c \<and> parent c' = parent c \<and>
           children c' = (if parent B = Some k
                          then List_set (children c) (indexOf (children c) (key B)) nk
                          else children c)"
    and "lastRootBlock (linkParent nk B st) = lastRootBlock st"
    and "newKeysRef (linkParent nk B st) = newKeysRef st"
  using assms
  by (auto simp add: linkParent_unfold hasParentIn_def Let_def get_setIn split: option.splits)

lemma linkParent_get_root:
  assumes "get (blockMapState st) k = Some c" "\<not> hasParentIn (blockMapState st) B"
  shows "\<exists>c'. get (blockMapState (linkParent nk B st)) k = Some c' \<and>
           blockText c' = blockText c \<and> children c' = children c \<and>
           parent c' = (if k = key B then None else parent c) \<and>
           nextSibling c' = (case lastRootBlock st of
                               Some L \<Rightarrow> if k = key L then Some nk else nextSibling c
                             | None \<Rightarrow> nextSibling c) \<and>
           prevSibling c' = (case lastRootBlock st of
                               Some L \<Rightarrow> if k = key B then newKeysRef_get (newKeysRef st) (key L)
                                          else prevSibling c
                             | None \<Rightarrow> prevSibling c)"
    and "newKeysRef (linkParent nk B st) = newKeysRef st"
  using assms
  by (auto simp add: linkParent_unfold Let_def get_setIn split: option.splits)

lemma linkParent_lastRoot:
  assumes "\<not> hasParentIn (blockMapState st) B" "key B \<in> set (map key (blockMapState st))"
  shows "map_option key (lastRootBlock (linkParent nk B st)) = Some (key B)"
proof -
  let ?m1 = "setIn_parent (blockMapState st) (key B) None"
  let ?m2 = "case lastRootBlock st of
               Some lastRoot \<Rightarrow>
                 setIn_prevSibling (setIn_nextSibling ?m1 (key lastRoot) (Some nk))
                   (key B) (newKeysRef_get (newKeysRef st) (key lastRoot))
             | None \<Rightarrow> ?m1"
  have "map key ?m2 = map key (blockMapState st)" by (simp split: option.splits)
  then have "get ?m2 (key B) \<noteq> None" using assms(2) by (simp add: get_None_iff)
  then obtain b where b: "get ?m2 (key B) = Some b" by blast
  then have "key b = key B" by (simp add: get_Some_key)
  moreover have "lastRootBlock (linkParent nk B st) = get ?m2 (key B)"
    using assms(1) by (simp add: linkParent_unfold Let_def)
  ultimately show ?thesis using b by simp
qed

lemma visitBlock_keys [simp]:
  "map key (blockMapState (visitBlock nk B st)) = map key (blockMapState st)"
  by (simp add: visitBlock_def Let_def)

lemma visitBlock_ref [simp]:
  "newKeysRef (visitBlock nk B st) = newKeysRef_set (newKeysRef st) (key B) nk"
  by (cases "hasParentIn (linkPrev nk B (linkNext nk B (blockMapState st))) B")
     (simp_all add: visitBlock_def Let_def linkParent_get_child(3) linkParent_get_root(2)
        linkParent_unfold split: option.splits)

lemma visitBlock_lastRoot:
  assumes "key B \<in> set (map key (blockMapState st))"
  shows "map_option key (lastRootBlock (visitBlock nk B st)) =
           (if hasParentIn (blockMapState st) B then map_option key (lastRootBlock st)
            else Some (key B))"
proof -
  let ?st3 = "st\<lparr>newKeysRef := newKeysRef_set (newKeysRef st) (key B) nk,
                  blockMapState := linkPrev nk B (linkNext nk B (blockMapState st))\<rparr>"
  have eq: "lastRootBlock (visitBlock nk B st) = lastRootBlock (linkParent nk B ?st3)"
    by (simp add: visitBlock_def Let_def)
  have hp: "hasParentIn (blockMapState ?st3) B = hasParentIn (blockMapState st) B"
    by (rule hasParentIn_cong) simp
  show ?thesis
  proof (cases "hasParentIn (blockMapState st) B")
    case True
    then have "hasParentIn (blockMapState ?st3) B" using hp by simp
    then have "lastRootBlock (linkParent nk B ?st3) = lastRootBlock ?st3"
      by (auto simp add: linkParent_unfold hasParentIn_def Let_def split: option.splits)
    then show ?thesis using True eq by simp
  next
    case False
    then have "\<not> hasParentIn (blockMapState ?st3) B" using hp by simp
    moreover have "key B \<in> set (map key (blockMapState ?st3))" using assms by simp
    ultimately show ?thesis using linkParent_lastRoot[of ?st3 B nk] False eq by simp
  qed
qed

lemma visitBlock_get:
  assumes "get (blockMapState st) k = Some c"
  shows "\<exists>c'. get (blockMapState (visitBlock nk B st)) k = Some c' \<and>
           blockText c' = blockText c \<and>
           nextSibling c' =
             (if \<not> hasParentIn (blockMapState st) B \<and>
                 map_option key (lastRootBlock st) = Some k then Some nk
              else if prevSibling B = Some k \<and> k \<noteq> [] then Some nk
              else if k = key B \<and> dangling (blockMapState st) (nextSibling B) then None
              else nextSibling c) \<and>
           prevSibling c' =
             (if \<not> hasParentIn (blockMapState st) B \<and> lastRootBlock st \<noteq> None \<and> k = key B
              then newKeysRef_get (newKeysRef_set (newKeysRef st) (key B) nk) (key (the (lastRootBlock st)))
              else if k = key B \<and> dangling (blockMapState st) (prevSibling B) then None
              else if nextSibling B = Some k \<and> k \<noteq> [] then Some nk
              else prevSibling c) \<and>
           parent c' =
             (if k \<in> set (children B) then Some nk
              else if \<not> hasParentIn (blockMapState st) B \<and> k = key B then None
              else parent c) \<and>
           (k \<noteq> key B \<or> list_all (\<lambda>x. get (blockMapState st) x \<noteq> None) (children B) \<longrightarrow>
            children c' =
              (if hasParentIn (blockMapState st) B \<and> parent B = Some k
               then List_set (children c) (indexOf (children c) (key B)) nk
               else children c))"
proof -
  let ?m = "blockMapState st"
  let ?m1 = "linkNext nk B ?m"
  let ?m2 = "linkPrev nk B ?m1"
  let ?st3 = "st\<lparr>newKeysRef := newKeysRef_set (newKeysRef st) (key B) nk, blockMapState := ?m2\<rparr>"
  let ?st4 = "linkParent nk B ?st3"
  have vb: "blockMapState (visitBlock nk B st) =
              linkChildren nk B (children B) (blockMapState ?st4)"
    by (simp add: visitBlock_def Let_def)
  from linkNext_get[OF assms, of nk B] obtain c1 where c1:
    "get ?m1 k = Some c1" "blockText c1 = blockText c" "parent c1 = parent c"
    "children c1 = children c"
    "nextSibling c1 = (if k = key B \<and> dangling ?m (nextSibling B) then None else nextSibling c)"
    "prevSibling c1 = (if nextSibling B = Some k \<and> k \<noteq> [] then Some nk else prevSibling c)"
    by blast
  from linkPrev_get[OF c1(1), of nk B] obtain c2 where c2:
    "get ?m2 k = Some c2" "blockText c2 = blockText c1" "parent c2 = parent c1"
    "children c2 = children c1"
    "prevSibling c2 = (if k = key B \<and> dangling ?m1 (prevSibling B) then None else prevSibling c1)"
    "nextSibling c2 = (if prevSibling B = Some k \<and> k \<noteq> [] then Some nk else nextSibling c1)"
    by blast
  have d1: "dangling ?m1 (prevSibling B) = dangling ?m (prevSibling B)"
    by (rule dangling_cong) simp
  have hp: "hasParentIn (blockMapState ?st3) B = hasParentIn ?m B"
    by (rule hasParentIn_cong) simp
  have g3: "get (blockMapState ?st3) k = Some c2" using c2(1) by simp
  have pres: "\<And>x. (get (blockMapState ?st4) x = None) = (get ?m x = None)"
    by (rule get_cong_keys) simp
  show ?thesis
  proof (cases "hasParentIn ?m B")
    case True
    then have h3: "hasParentIn (blockMapState ?st3) B" using hp by simp
    from linkParent_get_child(1)[OF g3 h3, of nk] obtain c3 where c3:
      "get (blockMapState ?st4) k = Some c3" "blockText c3 = blockText c2"
      "nextSibling c3 = nextSibling c2" "prevSibling c3 = prevSibling c2"
      "parent c3 = parent c2"
      "children c3 = (if parent B = Some k
                      then List_set (children c2) (indexOf (children c2) (key B)) nk
                      else children c2)"
      by blast
    from linkChildren_get[OF c3(1), of nk B "children B"] obtain c4 where c4:
      "get (linkChildren nk B (children B) (blockMapState ?st4)) k = Some c4"
      "blockText c4 = blockText c3" "nextSibling c4 = nextSibling c3"
      "prevSibling c4 = prevSibling c3"
      "parent c4 = (if k \<in> set (children B) then Some nk else parent c3)"
      "k \<noteq> key B \<or> list_all (\<lambda>x. get (blockMapState ?st4) x \<noteq> None) (children B)
         \<longrightarrow> children c4 = children c3"
      by blast
    show ?thesis
      using True c1 c2 c3 c4 d1 unfolding vb pres by auto
  next
    case False
    then have h3: "\<not> hasParentIn (blockMapState ?st3) B" using hp by simp
    from linkParent_get_root(1)[OF g3 h3, of nk] obtain c3 where c3:
      "get (blockMapState ?st4) k = Some c3" "blockText c3 = blockText c2"
      "children c3 = children c2"
      "parent c3 = (if k = key B then None else parent c2)"
      "nextSibling c3 = (case lastRootBlock ?st3 of
                               Some L \<Rightarrow> if k = key L then Some nk else nextSibling c2
                             | None \<Rightarrow> nextSibling c2)"
      "prevSibling c3 = (case lastRootBlock ?st3 of
                               Some L \<Rightarrow> if k = key B then newKeysRef_get (newKeysRef ?st3) (key L)
                                          else prevSibling c2
                             | None \<Rightarrow> prevSibling c2)"
      by blast
    from linkChildren_get[OF c3(1), of nk B "children B"] obtain c4 where c4:
      "get (linkChildren nk B (children B) (blockMapState ?st4)) k = Some c4"
      "blockText c4 = blockText c3" "nextSibling c4 = nextSibling c3"
      "prevSibling c4 = prevSibling c3"
      "parent c4 = (if k \<in> set (children B) then Some nk else parent c3)"
      "k \<noteq> key B \<or> list_all (\<lambda>x. get (blockMapState ?st4) x \<noteq> None) (children B)
         \<longrightarrow> children c4 = children c3"
      by blast
    show ?thesis
      using False c1 c2 c3 c4 d1 unfolding vb pres
      by (cases "lastRootBlock st") auto
  qed
qed

subsection \<open>Neighbouring roots, positions and child lists\<close>

lemma succ_in_mem: "succ_in rs k = Some r \<Longrightarrow> k \<in> set rs \<and> r \<in> set rs"
  by (induction rs k rule: succ_in.induct) (auto split: if_splits)

lemma pred_in_mem: "pred_in rs k = Some r \<Longrightarrow> k \<in> set rs \<and> r \<in> set rs"
  by (induction rs k rule: pred_in.induct) (auto split: if_splits)

lemma succ_in_notin: "k \<notin> set rs \<Longrightarrow> succ_in rs k = None"
  using succ_in_mem[of rs k] by (cases "succ_in rs k") auto

lemma pred_in_notin: "k \<notin> set rs \<Longrightarrow> pred_in rs k = None"
  using pred_in_mem[of rs k] by (cases "pred_in rs k") auto

lemma succ_in_last: "distinct rs \<Longrightarrow> rs \<noteq> [] \<Longrightarrow> succ_in rs (last rs) = None"
  by (induction rs "last rs" rule: succ_in.induct) (auto split: if_splits)

lemma succ_in_snoc:
  "distinct (rs @ [b]) \<Longrightarrow>
   succ_in (rs @ [b]) k = (if rs \<noteq> [] \<and> k = last rs then Some b else succ_in rs k)"
  by (induction rs k rule: succ_in.induct) auto

lemma pred_in_snoc:
  "distinct (rs @ [b]) \<Longrightarrow>
   pred_in (rs @ [b]) k = (if k = b then lastOpt rs else pred_in rs k)"
  by (induction rs k rule: pred_in.induct) (auto simp add: lastOpt_def)

lemma succ_in_append_left:
  "succ_in rs k = Some r \<Longrightarrow> succ_in (rs @ ss) k = Some r"
  by (induction rs k rule: succ_in.induct) (auto split: if_splits)

lemma pred_in_append_left:
  "pred_in rs k = Some r \<Longrightarrow> pred_in (rs @ ss) k = Some r"
  by (induction rs k rule: pred_in.induct) (auto split: if_splits)

lemma succ_in_mid:
  "distinct (rs @ b # ss) \<Longrightarrow> rs \<noteq> [] \<Longrightarrow> succ_in (rs @ b # ss) (last rs) = Some b"
proof -
  assume d: "distinct (rs @ b # ss)" and ne: "rs \<noteq> []"
  have "distinct (rs @ [b])" using d by auto
  then have "succ_in (rs @ [b]) (last rs) = Some b" using ne by (simp add: succ_in_snoc)
  then have "succ_in ((rs @ [b]) @ ss) (last rs) = Some b" by (rule succ_in_append_left)
  then show ?thesis by simp
qed

lemma pred_in_mid:
  "distinct (rs @ b # ss) \<Longrightarrow> rs \<noteq> [] \<Longrightarrow> pred_in (rs @ b # ss) b = Some (last rs)"
proof -
  assume d: "distinct (rs @ b # ss)" and ne: "rs \<noteq> []"
  have "distinct (rs @ [b])" using d by auto
  then have "pred_in (rs @ [b]) b = Some (last rs)" using ne by (simp add: pred_in_snoc lastOpt_def)
  then have "pred_in ((rs @ [b]) @ ss) b = Some (last rs)" by (rule pred_in_append_left)
  then show ?thesis by simp
qed

lemma position_mid:
  "distinct (map key (pre @ B # rest)) \<Longrightarrow> position (pre @ B # rest) (key B) = length pre"
proof -
  assume "distinct (map key (pre @ B # rest))"
  then have "key B \<notin> key ` set pre" by auto
  then have "\<forall>b \<in> set pre. key b \<noteq> key B" by (metis imageI)
  then have "takeWhile (\<lambda>b. key b \<noteq> key B) (pre @ B # rest) = pre"
    by (simp add: takeWhile_append2)
  then show ?thesis by (simp add: position_def)
qed

lemma position_less: "k \<in> set (map key m) \<Longrightarrow> position m k < length m"
  unfolding position_def
  by (induction m) auto

lemma rootKeys_snoc:
  "rootKeys m (pre @ [B]) = rootKeys m pre @ (if hasParentIn m B then [] else [key B])"
  by (simp add: rootKeys_def)

lemma rootKeys_append: "rootKeys m (xs @ ys) = rootKeys m xs @ rootKeys m ys"
  by (simp add: rootKeys_def)

lemma rootKeys_subset: "set (rootKeys m pre) \<subseteq> set (map key pre)"
  by (auto simp add: rootKeys_def)

lemma rootKeys_distinct: "distinct (map key pre) \<Longrightarrow> distinct (rootKeys m pre)"
  unfolding rootKeys_def by (induction pre) auto

lemma List_set_indexOf:
  assumes "distinct cs" "b \<in> set cs" "\<not> P b" "\<forall>c \<in> set cs. P c \<longrightarrow> f c \<noteq> b"
  shows "List_set (map (\<lambda>c. if P c then f c else c) cs)
           (indexOf (map (\<lambda>c. if P c then f c else c) cs) b) v =
         map (\<lambda>c. if c = b then v else if P c then f c else c) cs"
proof -
  let ?g = "\<lambda>c. if P c then f c else c"
  have ix: "b \<in> set cs \<Longrightarrow> distinct cs \<Longrightarrow> \<forall>c \<in> set cs. P c \<longrightarrow> f c \<noteq> b \<Longrightarrow>
      0 \<le> indexOf (map ?g cs) b \<and> nat (indexOf (map ?g cs) b) < length cs \<and>
      (map ?g cs)[nat (indexOf (map ?g cs) b) := v] =
        map (\<lambda>c. if c = b then v else ?g c) cs" for cs
  proof (induction cs)
    case Nil
    then show ?case by simp
  next
    case (Cons a cs)
    show ?case
    proof (cases "a = b")
      case True
      then have "b \<notin> set cs" using Cons.prems by simp
      then have "map (\<lambda>c. if c = b then v else ?g c) cs = map ?g cs" by (induction cs) auto
      then show ?thesis using True assms(3) by simp
    next
      case False
      then have ih: "0 \<le> indexOf (map ?g cs) b \<and> nat (indexOf (map ?g cs) b) < length cs \<and>
        (map ?g cs)[nat (indexOf (map ?g cs) b) := v] = map (\<lambda>c. if c = b then v else ?g c) cs"
        using Cons by simp
      have "?g a \<noteq> b" using False Cons.prems by auto
      then show ?thesis using ih False
        by (simp add: Let_def nat_add_distrib)
    qed
  qed
  from ix[OF assms(2,1,4)] show ?thesis
    by (auto simp add: List_set_def)
qed

subsection \<open>What the invariants of the input give\<close>

lemma wf_distinct: "wf_tree m \<Longrightarrow> distinct (map key m)"
  by (simp add: wf_tree_def)

lemma wf_nonempty:
  "wf_tree m \<Longrightarrow> x \<in> set m \<Longrightarrow>
   key x \<noteq> [] \<and> nextSibling x \<noteq> Some [] \<and> prevSibling x \<noteq> Some [] \<and> distinct (children x)"
  by (simp add: wf_tree_def list_all_iff)

lemma wf_not_proto: "wf_tree m \<Longrightarrow> present m k \<Longrightarrow> k \<noteq> ''__proto__''"
  by (auto simp add: wf_tree_def list_all_iff present_def)

lemma wf_siblings:
  "wf_tree m \<Longrightarrow> x \<in> set m \<Longrightarrow> y \<in> set m \<Longrightarrow>
   (nextSibling x = Some (key y)) = (prevSibling y = Some (key x))"
  by (simp add: wf_tree_def list_all_iff)

lemma wf_children:
  "wf_tree m \<Longrightarrow> x \<in> set m \<Longrightarrow> y \<in> set m \<Longrightarrow>
   (key y \<in> set (children x)) = (parent y = Some (key x))"
  by (simp add: wf_tree_def list_all_iff)

lemma wf_resolves:
  "wf_tree m \<Longrightarrow> x \<in> set m \<Longrightarrow>
   resolves_to m (nextSibling x) (succ_in (rootKeys m m) (key x)) \<and>
   resolves_to m (prevSibling x) (pred_in (rootKeys m m) (key x))"
  by (simp add: wf_tree_def list_all_iff)

lemma resolves_toD:
  "resolves_to m l t \<Longrightarrow> l = Some y \<Longrightarrow> t = Some r \<Longrightarrow> present m y \<Longrightarrow> y = r"
  by (simp add: resolves_to_def)

lemma wf_succ:
  "wf_tree m \<Longrightarrow> x \<in> set m \<Longrightarrow> succ_in (rootKeys m m) (key x) = Some r \<Longrightarrow>
   nextSibling x = Some y \<Longrightarrow> present m y \<Longrightarrow> y = r"
  using wf_resolves[of m x] resolves_toD by blast

lemma wf_pred:
  "wf_tree m \<Longrightarrow> x \<in> set m \<Longrightarrow> pred_in (rootKeys m m) (key x) = Some r \<Longrightarrow>
   prevSibling x = Some y \<Longrightarrow> present m y \<Longrightarrow> y = r"
  using wf_resolves[of m x] resolves_toD by blast

lemma key_inj_on_map:
  "distinct (map key m) \<Longrightarrow> x \<in> set m \<Longrightarrow> y \<in> set m \<Longrightarrow> key x = key y \<Longrightarrow> x = y"
  by (metis distinct_map inj_on_def)

lemma present_snoc: "present (pre @ [B]) k = (present pre k \<or> k = key B)"
  by (auto simp add: present_def)

lemma present_key: "x \<in> set m \<Longrightarrow> present m (key x)"
  by (simp add: present_def)

lemma present_obtain: "present m k \<Longrightarrow> \<exists>x \<in> set m. key x = k"
  by (auto simp add: present_def)

lemma dangling_iff:
  "dangling m l = (\<exists>y. l = Some y \<and> y \<noteq> [] \<and> \<not> present m y)"
  by (auto simp add: dangling_def get_present split: option.splits)

lemma hasParentIn_iff:
  "hasParentIn m b = (\<exists>p. parent b = Some p \<and> p \<noteq> [] \<and> present m p)"
  by (auto simp add: hasParentIn_def get_present split: option.splits)

lemma lastOpt_snoc [simp]: "lastOpt (xs @ [x]) = Some x"
  by (simp add: lastOpt_def)

lemma lastOpt_mem: "lastOpt xs = Some x \<Longrightarrow> x \<in> set xs \<and> xs \<noteq> [] \<and> last xs = x"
  by (auto simp add: lastOpt_def split: if_splits)

lemma step_ctx_facts:
  assumes "step_ctx gen m pre B rest"
  shows "wf_tree m" "distinct (map key m)" "B \<in> set m" "\<not> present pre (key B)"
    "newKey gen m (key B) = gen (length pre)" "\<And>k. present pre k \<Longrightarrow> present m k"
    "present m (key B)" "key B \<noteq> []" "set pre \<subseteq> set m"
    "distinct (rootKeys m pre)" "key B \<notin> set (rootKeys m pre)"
    "rootKeys m m = rootKeys m pre @ rootKeys m (B # rest)"
proof -
  have m: "m = pre @ B # rest" and wf: "wf_tree m"
    using assms unfolding step_ctx_def by blast+
  show "wf_tree m" by (rule wf)
  show d: "distinct (map key m)" using wf by (rule wf_distinct)
  show "B \<in> set m" using m by simp
  show np: "\<not> present pre (key B)" using d m by (auto simp add: present_def)
  show "newKey gen m (key B) = gen (length pre)"
    using d position_mid[of pre B rest] by (simp add: newKey_def m)
  show "\<And>k. present pre k \<Longrightarrow> present m k" using m by (auto simp add: present_def)
  show "present m (key B)" using m by (simp add: present_def)
  show "key B \<noteq> []" using wf_nonempty[OF wf, of B] m by simp
  show "set pre \<subseteq> set m" using m by auto
  have "distinct (map key pre)" using d m by simp
  then show "distinct (rootKeys m pre)" by (rule rootKeys_distinct)
  show "key B \<notin> set (rootKeys m pre)" using np rootKeys_subset[of m pre] by (auto simp add: present_def)
  show "rootKeys m m = rootKeys m pre @ rootKeys m (B # rest)"
    using rootKeys_append[of m pre "B # rest"] m by simp
qed

lemma step_ctx_root_succ:
  assumes "step_ctx gen m pre B rest" "\<not> hasParentIn m B" "lastOpt (rootKeys m pre) = Some l"
  shows "succ_in (rootKeys m m) l = Some (key B)" "pred_in (rootKeys m m) (key B) = Some l"
proof -
  note f = step_ctx_facts[OF assms(1)]
  have l: "rootKeys m pre \<noteq> []" "last (rootKeys m pre) = l"
    using lastOpt_mem[OF assms(3)] by simp_all
  have rk: "rootKeys m m = rootKeys m pre @ key B # rootKeys m rest"
    using f(12) assms(2) by (simp add: rootKeys_def)
  have "distinct (rootKeys m m)" using f(2) by (rule rootKeys_distinct)
  then have d: "distinct (rootKeys m pre @ key B # rootKeys m rest)" using rk by simp
  show "succ_in (rootKeys m m) l = Some (key B)"
    using succ_in_mid[OF d l(1)] l(2) rk by simp
  show "pred_in (rootKeys m m) (key B) = Some l"
    using pred_in_mid[OF d l(1)] l(2) rk by simp
qed

lemma step_ctx_succ_snoc:
  assumes "step_ctx gen m pre B rest"
  shows "succ_in (rootKeys m (pre @ [B])) k =
           (if \<not> hasParentIn m B \<and> lastOpt (rootKeys m pre) = Some k then Some (key B)
            else succ_in (rootKeys m pre) k)"
    and "pred_in (rootKeys m (pre @ [B])) k =
           (if \<not> hasParentIn m B \<and> k = key B then lastOpt (rootKeys m pre)
            else pred_in (rootKeys m pre) k)"
proof -
  note f = step_ctx_facts[OF assms(1)]
  have d: "distinct (rootKeys m pre @ [key B])" using f(10,11) by simp
  show "succ_in (rootKeys m (pre @ [B])) k =
           (if \<not> hasParentIn m B \<and> lastOpt (rootKeys m pre) = Some k then Some (key B)
            else succ_in (rootKeys m pre) k)"
    using succ_in_snoc[OF d, of k] by (auto simp add: rootKeys_snoc lastOpt_def)
  show "pred_in (rootKeys m (pre @ [B])) k =
           (if \<not> hasParentIn m B \<and> k = key B then lastOpt (rootKeys m pre)
            else pred_in (rootKeys m pre) k)"
    using pred_in_snoc[OF d, of k] by (auto simp add: rootKeys_snoc)
qed

subsection \<open>One visit keeps the invariant of the pass\<close>

lemma step_nextAfter:
  assumes ctx: "step_ctx gen m pre B rest" and x: "x \<in> set m"
  shows "(if \<not> hasParentIn m B \<and> lastOpt (rootKeys m pre) = Some (key x)
          then Some (gen (length pre))
          else if prevSibling B = Some (key x) \<and> key x \<noteq> [] then Some (gen (length pre))
          else if key x = key B \<and> dangling m (nextSibling B) then None
          else nextAfter gen m pre x) = nextAfter gen m (pre @ [B]) x"
proof -
  note f = step_ctx_facts[OF ctx]
  note sn = step_ctx_succ_snoc(1)[OF ctx, of "key x"]
  have nk: "newKey gen m (key B) = gen (length pre)" by (rule f(5))
  have kx: "key x \<noteq> []" "nextSibling x \<noteq> Some []" using wf_nonempty[OF f(1) x] by simp_all
  have sib: "(nextSibling x = Some (key B)) = (prevSibling B = Some (key x))"
    by (rule wf_siblings[OF f(1) x f(3)])
  have xB: "key x = key B \<Longrightarrow> x = B" using key_inj_on_map[OF f(2) x f(3)] by simp
  consider (A) "\<not> hasParentIn m B" "lastOpt (rootKeys m pre) = Some (key x)"
    | (B) "\<not> (\<not> hasParentIn m B \<and> lastOpt (rootKeys m pre) = Some (key x))"
          "prevSibling B = Some (key x)"
    | (C) "\<not> (\<not> hasParentIn m B \<and> lastOpt (rootKeys m pre) = Some (key x))"
          "prevSibling B \<noteq> Some (key x)" "key x = key B" "dangling m (nextSibling B)"
    | (D) "\<not> (\<not> hasParentIn m B \<and> lastOpt (rootKeys m pre) = Some (key x))"
          "prevSibling B \<noteq> Some (key x)" "\<not> (key x = key B \<and> dangling m (nextSibling B))"
    by blast
  then show ?thesis
  proof cases
    case A
    have s: "succ_in (rootKeys m (pre @ [B])) (key x) = Some (key B)" using sn A by simp
    have full: "succ_in (rootKeys m m) (key x) = Some (key B)"
      by (rule step_ctx_root_succ(1)[OF ctx A])
    have "nextAfter gen m (pre @ [B]) x = Some (gen (length pre))"
    proof (cases "nextSibling x")
      case None
      then show ?thesis using s nk by (simp add: nextAfter_def)
    next
      case (Some y)
      show ?thesis
      proof (cases "present m y")
        case True
        then have "y = key B" using wf_succ[OF f(1) x full Some] by simp
        then show ?thesis using Some True nk by (simp add: nextAfter_def present_snoc)
      next
        case False
        then show ?thesis using Some s nk by (simp add: nextAfter_def)
      qed
    qed
    then show ?thesis using A by simp
  next
    case B
    then have "nextSibling x = Some (key B)" using sib by simp
    then have "nextAfter gen m (pre @ [B]) x = Some (gen (length pre))"
      using f(7) nk by (simp add: nextAfter_def present_snoc)
    then show ?thesis using B kx by simp
  next
    case C
    then have xeq: "x = B" using xB by simp
    from C(4) obtain y where y: "nextSibling B = Some y" "\<not> present m y"
      by (auto simp add: dangling_iff)
    have "succ_in (rootKeys m pre) (key B) = None" using f(11) by (rule succ_in_notin)
    moreover have "lastOpt (rootKeys m pre) \<noteq> Some (key B)"
      using f(11) lastOpt_mem[of "rootKeys m pre" "key B"] by blast
    ultimately have "succ_in (rootKeys m (pre @ [B])) (key B) = None"
      using step_ctx_succ_snoc(1)[OF ctx, of "key B"] by simp
    then have "nextAfter gen m (pre @ [B]) x = None"
      using y xeq by (simp add: nextAfter_def present_snoc)
    then show ?thesis using C by simp
  next
    case D
    have s: "succ_in (rootKeys m (pre @ [B])) (key x) = succ_in (rootKeys m pre) (key x)"
      using sn D(1) by auto
    have "nextAfter gen m (pre @ [B]) x = nextAfter gen m pre x"
    proof (cases "nextSibling x")
      case None
      then show ?thesis using s by (simp add: nextAfter_def)
    next
      case (Some y)
      show ?thesis
      proof (cases "present m y")
        case True
        have "y \<noteq> key B" using Some sib D(2) by auto
        then show ?thesis using Some True by (simp add: nextAfter_def present_snoc)
      next
        case False
        have "key x \<noteq> key B"
        proof
          assume e: "key x = key B"
          then have "x = B" by (rule xB)
          then have "dangling m (nextSibling B)"
            using Some False kx(2) by (auto simp add: dangling_iff)
          then show False using D(3) e by simp
        qed
        then show ?thesis using Some False s by (simp add: nextAfter_def present_snoc)
      qed
    qed
    then show ?thesis using D by auto
  qed
qed

lemma step_prevAfter:
  assumes ctx: "step_ctx gen m pre B rest" and x: "x \<in> set m"
  shows "(if \<not> hasParentIn m B \<and> lastOpt (rootKeys m pre) \<noteq> None \<and> key x = key B
          then map_option (newKey gen m) (lastOpt (rootKeys m pre))
          else if key x = key B \<and> dangling m (prevSibling B) then None
          else if nextSibling B = Some (key x) \<and> key x \<noteq> [] then Some (gen (length pre))
          else prevAfter gen m pre x) = prevAfter gen m (pre @ [B]) x"
proof -
  note f = step_ctx_facts[OF ctx]
  note sn = step_ctx_succ_snoc(2)[OF ctx, of "key x"]
  have nk: "newKey gen m (key B) = gen (length pre)" by (rule f(5))
  have kx: "key x \<noteq> []" "prevSibling x \<noteq> Some []" using wf_nonempty[OF f(1) x] by simp_all
  have sib: "(nextSibling B = Some (key x)) = (prevSibling x = Some (key B))"
    by (rule wf_siblings[OF f(1) f(3) x])
  have xB: "key x = key B \<Longrightarrow> x = B" using key_inj_on_map[OF f(2) x f(3)] by simp
  have pn: "pred_in (rootKeys m pre) (key B) = None" using f(11) by (rule pred_in_notin)
  consider (A) "\<not> hasParentIn m B" "lastOpt (rootKeys m pre) \<noteq> None" "key x = key B"
    | (B) "\<not> (\<not> hasParentIn m B \<and> lastOpt (rootKeys m pre) \<noteq> None \<and> key x = key B)"
          "key x = key B" "dangling m (prevSibling B)"
    | (C) "\<not> (\<not> hasParentIn m B \<and> lastOpt (rootKeys m pre) \<noteq> None \<and> key x = key B)"
          "\<not> (key x = key B \<and> dangling m (prevSibling B))" "nextSibling B = Some (key x)"
    | (D) "\<not> (\<not> hasParentIn m B \<and> lastOpt (rootKeys m pre) \<noteq> None \<and> key x = key B)"
          "\<not> (key x = key B \<and> dangling m (prevSibling B))" "nextSibling B \<noteq> Some (key x)"
    by blast
  then show ?thesis
  proof cases
    case A
    then obtain l where l: "lastOpt (rootKeys m pre) = Some l" by blast
    have xeq: "x = B" using A(3) by (rule xB)
    have s: "pred_in (rootKeys m (pre @ [B])) (key B) = Some l"
      using step_ctx_succ_snoc(2)[OF ctx, of "key B"] A(1) l by simp
    have full: "pred_in (rootKeys m m) (key B) = Some l"
      by (rule step_ctx_root_succ(2)[OF ctx A(1) l])
    have lpre: "present pre l"
      using lastOpt_mem[OF l] rootKeys_subset[of m pre] by (auto simp add: present_def)
    have "prevAfter gen m (pre @ [B]) B = Some (newKey gen m l)"
    proof (cases "prevSibling B")
      case None
      then show ?thesis using s by (simp add: prevAfter_def present_snoc)
    next
      case (Some y)
      show ?thesis
      proof (cases "present m y")
        case True
        then have "y = l" using wf_pred[OF f(1) f(3) full Some] by simp
        then show ?thesis using Some True lpre by (simp add: prevAfter_def present_snoc)
      next
        case False
        then show ?thesis using Some s by (simp add: prevAfter_def present_snoc)
      qed
    qed
    then show ?thesis using A l xeq by simp
  next
    case B
    then have xeq: "x = B" using xB by simp
    from B(3) obtain y where y: "prevSibling B = Some y" "\<not> present m y"
      by (auto simp add: dangling_iff)
    have "pred_in (rootKeys m (pre @ [B])) (key B) = None"
      using step_ctx_succ_snoc(2)[OF ctx, of "key B"] B(1,2) pn by auto
    then have "prevAfter gen m (pre @ [B]) x = None"
      using y xeq by (simp add: prevAfter_def present_snoc)
    then show ?thesis using B by auto
  next
    case C
    then have "prevSibling x = Some (key B)" using sib by simp
    then have "prevAfter gen m (pre @ [B]) x = Some (gen (length pre))"
      using f(7) nk by (simp add: prevAfter_def present_snoc)
    then show ?thesis using C kx by auto
  next
    case D
    have s: "key x \<noteq> key B \<Longrightarrow>
             pred_in (rootKeys m (pre @ [B])) (key x) = pred_in (rootKeys m pre) (key x)"
      using sn by simp
    have sB: "key x = key B \<Longrightarrow> pred_in (rootKeys m (pre @ [B])) (key x) = None"
      using sn D(1) pn by auto
    have "prevAfter gen m (pre @ [B]) x = prevAfter gen m pre x"
    proof (cases "prevSibling x")
      case None
      then show ?thesis using s sB f(4) by (cases "key x = key B") (auto simp add: prevAfter_def present_snoc)
    next
      case (Some y)
      show ?thesis
      proof (cases "present m y")
        case True
        have "y \<noteq> key B" using Some sib D(3) by auto
        then show ?thesis using Some True by (simp add: prevAfter_def present_snoc)
      next
        case False
        have ne: "key x \<noteq> key B"
        proof
          assume e: "key x = key B"
          then have "x = B" by (rule xB)
          then have "dangling m (prevSibling B)"
            using Some False kx(2) by (auto simp add: dangling_iff)
          then show False using D(2) e by simp
        qed
        then show ?thesis using Some False s by (simp add: prevAfter_def present_snoc)
      qed
    qed
    then show ?thesis using D by auto
  qed
qed

lemma step_parentAfter:
  assumes ctx: "step_ctx gen m pre B rest" and x: "x \<in> set m"
  shows "(if key x \<in> set (children B) then Some (gen (length pre))
          else if \<not> hasParentIn m B \<and> key x = key B then None
          else parentAfter gen m pre x) = parentAfter gen m (pre @ [B]) x"
proof -
  note f = step_ctx_facts[OF ctx]
  have nk: "newKey gen m (key B) = gen (length pre)" by (rule f(5))
  have ch: "(key x \<in> set (children B)) = (parent x = Some (key B))"
    by (rule wf_children[OF f(1) f(3) x])
  have xB: "key x = key B \<Longrightarrow> x = B" using key_inj_on_map[OF f(2) x f(3)] by simp
  consider (A) "key x \<in> set (children B)"
    | (B) "key x \<notin> set (children B)" "\<not> hasParentIn m B" "key x = key B"
    | (C) "key x \<notin> set (children B)" "\<not> (\<not> hasParentIn m B \<and> key x = key B)"
    by blast
  then show ?thesis
  proof cases
    case A
    then have p: "parent x = Some (key B)" using ch by simp
    then have "hasParentIn m x" using f(7,8) by (auto simp add: hasParentIn_iff)
    then have "parentAfter gen m (pre @ [B]) x = Some (gen (length pre))"
      using p nk by (simp add: parentAfter_def present_snoc)
    then show ?thesis using A by simp
  next
    case B
    then have "x = B" using xB by simp
    then have "parentAfter gen m (pre @ [B]) x = None" using B by (simp add: parentAfter_def present_snoc)
    then show ?thesis using B by simp
  next
    case C
    have "parentAfter gen m (pre @ [B]) x = parentAfter gen m pre x"
    proof (cases "hasParentIn m x")
      case True
      then obtain p where p: "parent x = Some p" by (auto simp add: hasParentIn_iff)
      then have "p \<noteq> key B" using C(1) ch by auto
      then show ?thesis using True p by (simp add: parentAfter_def present_snoc)
    next
      case False
      have "key x \<noteq> key B"
      proof
        assume e: "key x = key B"
        then have "x = B" by (rule xB)
        then show False using False C(2) e by simp
      qed
      then show ?thesis using False by (simp add: parentAfter_def present_snoc)
    qed
    then show ?thesis using C by auto
  qed
qed

lemma fresh_newKey:
  assumes "fresh_keys gen (length m) (map key m)" "present m c"
  shows "newKey gen m c \<notin> set (map key m)"
proof -
  have "position m c < length m" using assms(2) position_less by (simp add: present_def)
  then show ?thesis using assms(1) by (simp add: fresh_keys_def list_all_iff newKey_def)
qed

lemma step_childrenAfter:
  assumes ctx: "step_ctx gen m pre B rest" and x: "x \<in> set m"
    and allp: "list_all (present m) (children x)"
  shows "(if hasParentIn m B \<and> parent B = Some (key x)
          then List_set (childrenAfter gen m pre x) (indexOf (childrenAfter gen m pre x) (key B)) (gen (length pre))
          else childrenAfter gen m pre x) = childrenAfter gen m (pre @ [B]) x"
proof -
  note f = step_ctx_facts[OF ctx]
  have fr: "fresh_keys gen (length m) (map key m)" using ctx unfolding step_ctx_def by blast
  have nk: "newKey gen m (key B) = gen (length pre)" by (rule f(5))
  have kx: "key x \<noteq> []" "distinct (children x)" using wf_nonempty[OF f(1) x] by simp_all
  have ch: "(key B \<in> set (children x)) = (parent B = Some (key x))"
    by (rule wf_children[OF f(1) x f(3)])
  have hp: "parent B = Some (key x) \<Longrightarrow> hasParentIn m B"
    using kx(1) present_key[OF x] by (auto simp add: hasParentIn_iff)
  show ?thesis
  proof (cases "parent B = Some (key x)")
    case True
    then have mem: "key B \<in> set (children x)" using ch by simp
    have nf: "\<forall>c \<in> set (children x). present pre c \<longrightarrow> newKey gen m c \<noteq> key B"
    proof (intro ballI impI)
      fix c assume "c \<in> set (children x)" "present pre c"
      then have "present m c" using f(6) by simp
      then have "newKey gen m c \<notin> set (map key m)" by (rule fresh_newKey[OF fr])
      then show "newKey gen m c \<noteq> key B" using f(3) by auto
    qed
    have "List_set (childrenAfter gen m pre x) (indexOf (childrenAfter gen m pre x) (key B)) (gen (length pre)) =
          map (\<lambda>c. if c = key B then gen (length pre)
                    else if present pre c then newKey gen m c else c) (children x)"
      unfolding childrenAfter_def by (rule List_set_indexOf[OF kx(2) mem f(4) nf])
    also have "\<dots> = childrenAfter gen m (pre @ [B]) x"
      using nk by (auto simp add: childrenAfter_def present_snoc)
    finally show ?thesis using True hp by simp
  next
    case False
    then have "key B \<notin> set (children x)" using ch by simp
    then have "childrenAfter gen m (pre @ [B]) x = childrenAfter gen m pre x"
      by (auto simp add: childrenAfter_def present_snoc)
    then show ?thesis using False by simp
  qed
qed

lemma pass_inv_step:
  assumes ctx: "step_ctx gen m pre B rest" and iv: "pass_inv gen m pre st"
  shows "pass_inv gen m (pre @ [B]) (visitBlock (gen (length pre)) B st)"
proof -
  note f = step_ctx_facts[OF ctx]
  let ?nk = "gen (length pre)"
  let ?st' = "visitBlock ?nk B st"
  have keys: "map key (blockMapState st) = map key m" using iv by (simp add: pass_inv_def)
  have ref: "\<And>k. present pre k \<Longrightarrow> newKeysRef st k = Some (newKey gen m k)"
    using iv by (simp add: pass_inv_def)
  have lr: "map_option key (lastRootBlock st) = lastOpt (rootKeys m pre)"
    using iv by (simp add: pass_inv_def)
  have hp: "hasParentIn (blockMapState st) B = hasParentIn m B"
    using keys by (rule hasParentIn_cong)
  have dg: "\<And>l. dangling (blockMapState st) l = dangling m l"
    using keys by (rule dangling_cong)
  have pr: "\<And>k. (get (blockMapState st) k \<noteq> None) = present m k"
    using keys by (simp add: get_None_iff present_def)
  have 1: "map key (blockMapState ?st') = map key m" using keys by simp
  have np: "key B \<noteq> ''__proto__''" using wf_not_proto[OF f(1) f(7)] .
  have 2: "\<forall>k. present (pre @ [B]) k \<longrightarrow> newKeysRef ?st' k = Some (newKey gen m k)"
    using ref f(5) np by (auto simp add: present_snoc newKeysRef_set_def)
  have "key B \<in> set (map key (blockMapState st))" using keys f(3) by auto
  then have 3: "map_option key (lastRootBlock ?st') = lastOpt (rootKeys m (pre @ [B]))"
    using visitBlock_lastRoot[of B st ?nk] hp lr by (simp add: rootKeys_snoc)
  have lrv: "lastRootBlock st \<noteq> None \<Longrightarrow>
      newKeysRef_get (newKeysRef_set (newKeysRef st) (key B) ?nk) (key (the (lastRootBlock st))) =
        map_option (newKey gen m) (lastOpt (rootKeys m pre))"
  proof -
    assume "lastRootBlock st \<noteq> None"
    then obtain L where L: "lastRootBlock st = Some L" by blast
    have l: "lastOpt (rootKeys m pre) = Some (key L)" unfolding lr[symmetric] L by simp
    have mem: "key L \<in> set (rootKeys m pre)" using lastOpt_mem[OF l] by simp
    then have "present pre (key L)" using rootKeys_subset[of m pre] by (auto simp add: present_def)
    moreover have "key L \<noteq> key B" using mem f(11) by auto
    moreover have "key L \<noteq> ''__proto__''"
      using \<open>present pre (key L)\<close> f(6) wf_not_proto[OF f(1)] by blast
    ultimately show ?thesis using L l ref np
      by (simp add: newKeysRef_set_def newKeysRef_get_def)
  qed
  have lrn: "(lastRootBlock st \<noteq> None) = (lastOpt (rootKeys m pre) \<noteq> None)"
    unfolding lr[symmetric] by simp
  have 4: "\<exists>c. get (blockMapState ?st') (key x) = Some c \<and>
          blockText c = blockText x \<and>
          nextSibling c = nextAfter gen m (pre @ [B]) x \<and>
          prevSibling c = prevAfter gen m (pre @ [B]) x \<and>
          parent c = parentAfter gen m (pre @ [B]) x \<and>
          (list_all (present m) (children x) \<longrightarrow> children c = childrenAfter gen m (pre @ [B]) x)"
    if x: "x \<in> set m" for x
  proof -
    from iv x obtain c where c: "get (blockMapState st) (key x) = Some c"
      "blockText c = blockText x" "nextSibling c = nextAfter gen m pre x"
      "prevSibling c = prevAfter gen m pre x" "parent c = parentAfter gen m pre x"
      "list_all (present m) (children x) \<longrightarrow> children c = childrenAfter gen m pre x"
      unfolding pass_inv_def by blast
    from visitBlock_get[OF c(1), of ?nk B] obtain c' where c':
      "get (blockMapState ?st') (key x) = Some c'"
      "blockText c' = blockText c"
      "nextSibling c' =
             (if \<not> hasParentIn (blockMapState st) B \<and>
                 map_option key (lastRootBlock st) = Some (key x) then Some ?nk
              else if prevSibling B = Some (key x) \<and> key x \<noteq> [] then Some ?nk
              else if key x = key B \<and> dangling (blockMapState st) (nextSibling B) then None
              else nextSibling c)"
      "prevSibling c' =
             (if \<not> hasParentIn (blockMapState st) B \<and> lastRootBlock st \<noteq> None \<and> key x = key B
              then newKeysRef_get (newKeysRef_set (newKeysRef st) (key B) ?nk) (key (the (lastRootBlock st)))
              else if key x = key B \<and> dangling (blockMapState st) (prevSibling B) then None
              else if nextSibling B = Some (key x) \<and> key x \<noteq> [] then Some ?nk
              else prevSibling c)"
      "parent c' =
             (if key x \<in> set (children B) then Some ?nk
              else if \<not> hasParentIn (blockMapState st) B \<and> key x = key B then None
              else parent c)"
      "key x \<noteq> key B \<or> list_all (\<lambda>x. get (blockMapState st) x \<noteq> None) (children B) \<longrightarrow>
            children c' =
              (if hasParentIn (blockMapState st) B \<and> parent B = Some (key x)
               then List_set (children c) (indexOf (children c) (key B)) ?nk
               else children c)"
      by blast
    have n: "nextSibling c' = nextAfter gen m (pre @ [B]) x"
    proof -
      have "nextSibling c' =
          (if \<not> hasParentIn m B \<and> lastOpt (rootKeys m pre) = Some (key x)
           then Some ?nk
           else if prevSibling B = Some (key x) \<and> key x \<noteq> [] then Some ?nk
           else if key x = key B \<and> dangling m (nextSibling B) then None
           else nextAfter gen m pre x)"
        using c'(3) unfolding hp dg lr c(3) .
      from this step_nextAfter[OF ctx x] show ?thesis by (rule trans)
    qed
    have p: "prevSibling c' = prevAfter gen m (pre @ [B]) x"
    proof -
      have v: "\<not> hasParentIn m B \<and> lastOpt (rootKeys m pre) \<noteq> None \<and> key x = key B \<Longrightarrow>
          newKeysRef_get (newKeysRef_set (newKeysRef st) (key B) ?nk) (key (the (lastRootBlock st))) =
          map_option (newKey gen m) (lastOpt (rootKeys m pre))"
        using lrv lrn by blast
      have "prevSibling c' =
          (if \<not> hasParentIn m B \<and> lastOpt (rootKeys m pre) \<noteq> None \<and> key x = key B
           then newKeysRef_get (newKeysRef_set (newKeysRef st) (key B) ?nk) (key (the (lastRootBlock st)))
           else if key x = key B \<and> dangling m (prevSibling B) then None
           else if nextSibling B = Some (key x) \<and> key x \<noteq> [] then Some ?nk
           else prevAfter gen m pre x)"
        using c'(4) unfolding hp dg lrn c(4) .
      also have "\<dots> =
          (if \<not> hasParentIn m B \<and> lastOpt (rootKeys m pre) \<noteq> None \<and> key x = key B
           then map_option (newKey gen m) (lastOpt (rootKeys m pre))
           else if key x = key B \<and> dangling m (prevSibling B) then None
           else if nextSibling B = Some (key x) \<and> key x \<noteq> [] then Some ?nk
           else prevAfter gen m pre x)"
        using v by (rule if_cong[OF refl _ refl])
      also have "\<dots> = prevAfter gen m (pre @ [B]) x" by (rule step_prevAfter[OF ctx x])
      finally show ?thesis .
    qed
    have a: "parent c' = parentAfter gen m (pre @ [B]) x"
    proof -
      have "parent c' =
          (if key x \<in> set (children B) then Some ?nk
           else if \<not> hasParentIn m B \<and> key x = key B then None
           else parentAfter gen m pre x)"
        using c'(5) unfolding hp c(5) .
      from this step_parentAfter[OF ctx x] show ?thesis by (rule trans)
    qed
    have h: "children c' = childrenAfter gen m (pre @ [B]) x" if allp: "list_all (present m) (children x)"
    proof -
      have cc: "children c = childrenAfter gen m pre x" using c(6) allp by blast
      have "key x = key B \<Longrightarrow> x = B" using key_inj_on_map[OF f(2) x f(3)] by simp
      then have "key x \<noteq> key B \<or> list_all (\<lambda>x. get (blockMapState st) x \<noteq> None) (children B)"
        using allp unfolding pr by auto
      with c'(6) have "children c' =
              (if hasParentIn (blockMapState st) B \<and> parent B = Some (key x)
               then List_set (children c) (indexOf (children c) (key B)) ?nk
               else children c)"
        by blast
      then have "children c' =
              (if hasParentIn m B \<and> parent B = Some (key x)
               then List_set (childrenAfter gen m pre x) (indexOf (childrenAfter gen m pre x) (key B)) ?nk
               else childrenAfter gen m pre x)"
        unfolding hp cc .
      from this step_childrenAfter[OF ctx x allp] show ?thesis by (rule trans)
    qed
    have t: "blockText c' = blockText x" using c'(2) c(2) by (rule trans)
    show ?thesis
    proof (intro exI[of _ c'] conjI impI)
      show "get (blockMapState ?st') (key x) = Some c'" by (rule c'(1))
      show "blockText c' = blockText x" by (rule t)
      show "nextSibling c' = nextAfter gen m (pre @ [B]) x" by (rule n)
      show "prevSibling c' = prevAfter gen m (pre @ [B]) x" by (rule p)
      show "parent c' = parentAfter gen m (pre @ [B]) x" by (rule a)
      show "children c' = childrenAfter gen m (pre @ [B]) x" if "list_all (present m) (children x)"
        using that by (rule h)
    qed
  qed
  have "\<forall>x \<in> set m. \<exists>c. get (blockMapState ?st') (key x) = Some c \<and>
          blockText c = blockText x \<and>
          nextSibling c = nextAfter gen m (pre @ [B]) x \<and>
          prevSibling c = prevAfter gen m (pre @ [B]) x \<and>
          parent c = parentAfter gen m (pre @ [B]) x \<and>
          (list_all (present m) (children x) \<longrightarrow> children c = childrenAfter gen m (pre @ [B]) x)"
    using 4 by blast
  then show ?thesis unfolding pass_inv_def using 1 2 3 by simp
qed

subsection \<open>The whole pass\<close>

lemma pass_inv_initial:
  assumes "wf_tree m"
  shows "pass_inv gen m [] \<lparr>blockMapState = m, newKeysRef = Map.empty, lastRootBlock = None\<rparr>"
proof -
  have d: "distinct (map key m)" using assms by (rule wf_distinct)
  have p: "\<And>k. \<not> present [] k" by (simp add: present_def)
  have r: "rootKeys m [] = []" by (simp add: rootKeys_def)
  have "nextAfter gen m [] x = nextSibling x" for x
    by (simp add: nextAfter_def p r split: option.splits)
  moreover have "prevAfter gen m [] x = prevSibling x" for x
    by (simp add: prevAfter_def p r split: option.splits)
  moreover have "parentAfter gen m [] x = parent x" for x
    by (cases "parent x") (simp_all add: parentAfter_def p)
  moreover have "childrenAfter gen m [] x = children x" for x
    by (simp add: childrenAfter_def p)
  ultimately show ?thesis
    using get_distinct[OF d] by (simp add: pass_inv_def p r lastOpt_def)
qed

lemma pass_inv_visitBlocks:
  assumes "wf_tree m" "fresh_keys gen (length m) (map key m)"
  shows "m = pre @ rest \<Longrightarrow> pass_inv gen m pre st \<Longrightarrow>
         pass_inv gen m m (visitBlocks gen (length pre) rest st)"
proof (induction rest arbitrary: pre st)
  case Nil
  then show ?case by simp
next
  case (Cons B rest)
  have ctx: "step_ctx gen m pre B rest"
    using assms Cons.prems(1) unfolding step_ctx_def by blast
  have "pass_inv gen m (pre @ [B]) (visitBlock (gen (length pre)) B st)"
    using ctx Cons.prems(2) by (rule pass_inv_step)
  moreover have "m = (pre @ [B]) @ rest" using Cons.prems(1) by simp
  ultimately have "pass_inv gen m m (visitBlocks gen (length (pre @ [B])) rest
                     (visitBlock (gen (length pre)) B st))"
    using Cons.IH by blast
  then show ?case by simp
qed

lemma position_nth:
  "distinct (map key m) \<Longrightarrow> i < length m \<Longrightarrow> position m (key (m ! i)) = i"
proof -
  assume d: "distinct (map key m)" and i: "i < length m"
  have m: "m = take i m @ m ! i # drop (Suc i) m" using i by (rule id_take_nth_drop)
  have "position (take i m @ m ! i # drop (Suc i) m) (key (m ! i)) = length (take i m)"
    by (rule position_mid) (use d m in simp)
  then show ?thesis using m i by simp
qed

lemma newKeys_all:
  assumes "distinct (map key m)"
  shows "map (newKey gen m) (map key m) = map gen [0..<length m]"
  by (rule nth_equalityI) (simp_all add: newKey_def position_nth[OF assms])

lemma tree_rekey_fields:
  assumes wf: "wf_tree m" and fr: "fresh_keys gen (length m) (map key m)" and x: "x \<in> set m"
  shows "\<exists>x'. get (randomizeContentBlockNodeKeys gen m) (newKey gen m (key x)) = Some x' \<and>
           blockText x' = blockText x \<and>
           nextSibling x' = nextAfter gen m m x \<and> prevSibling x' = prevAfter gen m m x \<and>
           parent x' = parentAfter gen m m x \<and>
           (list_all (present m) (children x) \<longrightarrow> children x' = childrenAfter gen m m x)"
    and "map key (randomizeContentBlockNodeKeys gen m) = map gen [0..<length m]"
proof -
  let ?st = "visitBlocks gen 0 m \<lparr>blockMapState = m, newKeysRef = Map.empty, lastRootBlock = None\<rparr>"
  let ?f = "\<lambda>b::content_block_node. b\<lparr>key := newKey gen m (key b)\<rparr>"
  have d: "distinct (map key m)" using wf by (rule wf_distinct)
  have iv: "pass_inv gen m m ?st"
    using pass_inv_visitBlocks[OF wf fr, of "[]" m] pass_inv_initial[OF wf] by simp
  have keys: "map key (blockMapState ?st) = map key m" using iv by (simp add: pass_inv_def)
  have ref: "\<And>k. present m k \<Longrightarrow> newKeysRef ?st k = Some (newKey gen m k)"
    using iv by (simp add: pass_inv_def)
  have inS: "\<And>b. b \<in> set (blockMapState ?st) \<Longrightarrow> present m (key b)"
  proof -
    fix b assume "b \<in> set (blockMapState ?st)"
    then have "key b \<in> set (map key (blockMapState ?st))" by simp
    then show "present m (key b)" unfolding keys present_def .
  qed
  have mp: "map (\<lambda>block. block\<lparr>key := newKeyOf (newKeysRef ?st) (key block)\<rparr>) (blockMapState ?st) =
            map ?f (blockMapState ?st)"
    by (rule map_cong) (simp_all add: newKeyOf_def newKeysRef_get_def ref inS
          wf_not_proto[OF wf inS])
  have "map key (map ?f (blockMapState ?st)) = map (newKey gen m) (map key (blockMapState ?st))"
    by (simp add: comp_def)
  then have nk: "map key (map ?f (blockMapState ?st)) = map gen [0..<length m]"
    using newKeys_all[OF d, of gen] keys by simp
  have dn: "distinct (map key (map ?f (blockMapState ?st)))"
    unfolding nk using fr by (simp add: fresh_keys_def)
  have out: "randomizeContentBlockNodeKeys gen m = map ?f (blockMapState ?st)"
    unfolding randomizeContentBlockNodeKeys_def Let_def mp by (rule OrderedMap_of_distinct[OF dn])
  show "map key (randomizeContentBlockNodeKeys gen m) = map gen [0..<length m]"
    unfolding out by (rule nk)
  from iv x obtain c where c: "get (blockMapState ?st) (key x) = Some c"
      "blockText c = blockText x" "nextSibling c = nextAfter gen m m x"
      "prevSibling c = prevAfter gen m m x" "parent c = parentAfter gen m m x"
      "list_all (present m) (children x) \<longrightarrow> children c = childrenAfter gen m m x"
    unfolding pass_inv_def by blast
  have ck: "key c = key x" "c \<in> set (blockMapState ?st)" using get_Some_key[OF c(1)] by simp_all
  have "?f c \<in> set (map ?f (blockMapState ?st))" using ck(2) by simp
  then have "get (map ?f (blockMapState ?st)) (key (?f c)) = Some (?f c)"
    using get_distinct[OF dn] by blast
  then have g: "get (randomizeContentBlockNodeKeys gen m) (newKey gen m (key x)) = Some (?f c)"
    unfolding out using ck(1) by simp
  show "\<exists>x'. get (randomizeContentBlockNodeKeys gen m) (newKey gen m (key x)) = Some x' \<and>
           blockText x' = blockText x \<and>
           nextSibling x' = nextAfter gen m m x \<and> prevSibling x' = prevAfter gen m m x \<and>
           parent x' = parentAfter gen m m x \<and>
           (list_all (present m) (children x) \<longrightarrow> children x' = childrenAfter gen m m x)"
    using g c by (intro exI[of _ "?f c"]) simp
qed

lemma nextAfter_final:
  "x \<in> set m \<Longrightarrow> nextSibling x = Some y \<Longrightarrow>
   nextAfter gen m m x = (if present m y then Some (newKey gen m y)
                   else map_option (newKey gen m) (succ_in (rootKeys m m) (key x)))"
  by (simp add: nextAfter_def present_key split: option.splits)

lemma prevAfter_final:
  "x \<in> set m \<Longrightarrow> prevSibling x = Some y \<Longrightarrow>
   prevAfter gen m m x = (if present m y then Some (newKey gen m y)
                   else map_option (newKey gen m) (pred_in (rootKeys m m) (key x)))"
  by (simp add: prevAfter_def present_key)

lemma parentAfter_final:
  "wf_tree m \<Longrightarrow> x \<in> set m \<Longrightarrow> parent x = Some p \<Longrightarrow>
   parentAfter gen m m x = (if present m p then Some (newKey gen m p) else None)"
proof -
  assume wf: "wf_tree m" and x: "x \<in> set m" and p: "parent x = Some p"
  show ?thesis
  proof (cases "present m p")
    case True
    then obtain P where P: "P \<in> set m" "key P = p" using present_obtain by blast
    then have "p \<noteq> []" using wf_nonempty[OF wf P(1)] by simp
    then have "hasParentIn m x" using True p by (simp add: hasParentIn_iff)
    then show ?thesis using True p by (simp add: parentAfter_def)
  next
    case False
    then have "\<not> hasParentIn m x" using p by (simp add: hasParentIn_iff)
    then show ?thesis using False x by (simp add: parentAfter_def present_key)
  qed
qed

lemma childrenAfter_final:
  "list_all (present m) (children x) \<Longrightarrow> childrenAfter gen m m x = map (newKey gen m) (children x)"
  by (simp add: childrenAfter_def list_all_iff)

lemma scenario_B_wf: "wf_tree scenario_B"
  by (simp add: wf_tree_def scenario_B_def node_def rootKeys_def hasParentIn_def get_def
        resolves_to_def present_def)

lemma scenario_B_fresh: "fresh_keys numbered (length scenario_B) (map key scenario_B)"
  by (simp add: fresh_keys_def scenario_B_def node_def numbered_def upt_rec)

subsection \<open>Topology up to relabelling\<close>

text \<open>
  Claim C1, as the code has it. Let \<open>m\<close> be a tree-structured block map or fragment
  that satisfies the invariants of the data model, rekeyed with fresh keys, and let \<open>x\<close>
  be a block of \<open>m\<close>. The \<open>i\<close>-th block of the output has the \<open>i\<close>-th generated key,
  and the block \<open>x'\<close> at the new key of \<open>x\<close> has the text of \<open>x\<close> and these links. A
  next sibling, previous sibling or parent of \<open>x\<close> that is in the map is replaced by
  its new key, and so is every child when all children of \<open>x\<close> are in the map. A parent
  that is null or outside the map gives null. A sibling link that is null or names a key
  outside the map gives null too, unless \<open>x\<close> is treated as a root and has a
  neighbouring root in map order on that side: then the link is the new key of that
  neighbouring root.
\<close>

theorem tree_rekey_topology:
  assumes "wf_tree m" "fresh_keys gen (length m) (map key m)" "x \<in> set m"
  shows "\<exists>out x'. randomizeBlockMapKeys gen (ContentBlockNodes m) = ContentBlockNodes out \<and>
           map key out = map gen [0..<length m] \<and>
           get out (newKey gen m (key x)) = Some x' \<and> blockText x' = blockText x \<and>
           (\<forall>y. nextSibling x = Some y \<longrightarrow>
                nextSibling x' =
                  (if present m y then Some (newKey gen m y)
                   else map_option (newKey gen m) (succ_in (rootKeys m m) (key x)))) \<and>
           (\<forall>y. prevSibling x = Some y \<longrightarrow>
                prevSibling x' =
                  (if present m y then Some (newKey gen m y)
                   else map_option (newKey gen m) (pred_in (rootKeys m m) (key x)))) \<and>
           (\<forall>p. parent x = Some p \<longrightarrow>
                parent x' = (if present m p then Some (newKey gen m p) else None)) \<and>
           (nextSibling x = None \<longrightarrow>
                nextSibling x' = map_option (newKey gen m) (succ_in (rootKeys m m) (key x))) \<and>
           (prevSibling x = None \<longrightarrow>
                prevSibling x' = map_option (newKey gen m) (pred_in (rootKeys m m) (key x))) \<and>
           (parent x = None \<longrightarrow> parent x' = None) \<and>
           (list_all (present m) (children x) \<longrightarrow>
                children x' = map (newKey gen m) (children x))"
proof -
  from tree_rekey_fields(1)[OF assms] obtain x' where x':
    "get (randomizeContentBlockNodeKeys gen m) (newKey gen m (key x)) = Some x'"
    "blockText x' = blockText x"
    "nextSibling x' = nextAfter gen m m x" "prevSibling x' = prevAfter gen m m x"
    "parent x' = parentAfter gen m m x"
    "list_all (present m) (children x) \<longrightarrow> children x' = childrenAfter gen m m x"
    by blast
  have ne: "m \<noteq> []" using assms(3) by auto
  then obtain b bs where m: "m = b # bs" by (cases m) auto
  have r: "randomizeBlockMapKeys gen (ContentBlockNodes m) =
           ContentBlockNodes (randomizeContentBlockNodeKeys gen m)"
    unfolding m by simp
  show ?thesis
  proof (intro exI[of _ "randomizeContentBlockNodeKeys gen m"] exI[of _ x'] conjI allI impI)
    show "randomizeBlockMapKeys gen (ContentBlockNodes m) =
          ContentBlockNodes (randomizeContentBlockNodeKeys gen m)" by (rule r)
    show "map key (randomizeContentBlockNodeKeys gen m) = map gen [0..<length m]"
      by (rule tree_rekey_fields(2)[OF assms])
    show "get (randomizeContentBlockNodeKeys gen m) (newKey gen m (key x)) = Some x'"
      by (rule x'(1))
    show "blockText x' = blockText x" by (rule x'(2))
    show "nextSibling x' =
            (if present m y then Some (newKey gen m y)
             else map_option (newKey gen m) (succ_in (rootKeys m m) (key x)))"
      if "nextSibling x = Some y" for y
      using x'(3) nextAfter_final[OF assms(3) that] by simp
    show "prevSibling x' =
            (if present m y then Some (newKey gen m y)
             else map_option (newKey gen m) (pred_in (rootKeys m m) (key x)))"
      if "prevSibling x = Some y" for y
      using x'(4) prevAfter_final[OF assms(3) that] by simp
    show "parent x' = (if present m p then Some (newKey gen m p) else None)"
      if "parent x = Some p" for p
      using x'(5) parentAfter_final[OF assms(1,3) that] by simp
    show "nextSibling x' = map_option (newKey gen m) (succ_in (rootKeys m m) (key x))"
      if "nextSibling x = None"
      using x'(3) that by (simp add: nextAfter_def split: option.splits)
    show "prevSibling x' = map_option (newKey gen m) (pred_in (rootKeys m m) (key x))"
      if "prevSibling x = None"
      using x'(4) that assms(3) by (simp add: prevAfter_def present_key)
    show "parent x' = None" if "parent x = None"
      using x'(5) that assms(3) by (simp add: parentAfter_def hasParentIn_iff present_key)
    show "children x' = map (newKey gen m) (children x)"
      if "list_all (present m) (children x)"
      using x'(6) childrenAfter_final[OF that] that by simp
  qed
qed

theorem tree_rekey_topology_witness:
  "wf_tree scenario_B \<and> fresh_keys numbered (length scenario_B) (map key scenario_B) \<and>
   (\<exists>out a b c.
      randomizeBlockMapKeys numbered (ContentBlockNodes scenario_B) = ContentBlockNodes out \<and>
      map key out = [''n'', ''nn'', ''nnn''] \<and>
      get out ''n'' = Some a \<and> children a = [''nn'', ''nnn''] \<and>
      get out ''nn'' = Some b \<and> parent b = Some ''n'' \<and> nextSibling b = Some ''nnn'' \<and>
      get out ''nnn'' = Some c \<and> parent c = Some ''n'' \<and> prevSibling c = Some ''nn'')"
proof -
  have xa: "node ''A'' None [''B'', ''C''] None None \<in> set scenario_B"
   and xb: "node ''B'' (Some ''A'') [] None (Some ''C'') \<in> set scenario_B"
   and xc: "node ''C'' (Some ''A'') [] (Some ''B'') None \<in> set scenario_B"
    by (simp_all add: scenario_B_def)
  have k: "newKey numbered scenario_B ''A'' = ''n''" "newKey numbered scenario_B ''B'' = ''nn''"
    "newKey numbered scenario_B ''C'' = ''nnn''"
    "present scenario_B ''A''" "present scenario_B ''B''" "present scenario_B ''C''"
    by (simp_all add: newKey_def position_def scenario_B_def node_def numbered_def present_def)
  have u: "map numbered [0..<length scenario_B] = [''n'', ''nn'', ''nnn'']"
    by (simp add: scenario_B_def numbered_def upt_rec)
  from tree_rekey_topology[OF scenario_B_wf scenario_B_fresh xa] obtain out a where a:
    "randomizeBlockMapKeys numbered (ContentBlockNodes scenario_B) = ContentBlockNodes out"
    "map key out = [''n'', ''nn'', ''nnn'']"
    "get out ''n'' = Some a" "children a = [''nn'', ''nnn'']"
    using k u by (auto simp add: node_def)
  from tree_rekey_topology[OF scenario_B_wf scenario_B_fresh xb] obtain out' b where b:
    "randomizeBlockMapKeys numbered (ContentBlockNodes scenario_B) = ContentBlockNodes out'"
    "get out' ''nn'' = Some b" "parent b = Some ''n''" "nextSibling b = Some ''nnn''"
    using k u by (auto simp add: node_def)
  from tree_rekey_topology[OF scenario_B_wf scenario_B_fresh xc] obtain out'' c where c:
    "randomizeBlockMapKeys numbered (ContentBlockNodes scenario_B) = ContentBlockNodes out''"
    "get out'' ''nnn'' = Some c" "parent c = Some ''n''" "prevSibling c = Some ''nn''"
    using k u by (auto simp add: node_def)
  have o: "out' = out" "out'' = out" using a(1) b(1) c(1) by simp_all
  have "\<exists>out a b c.
      randomizeBlockMapKeys numbered (ContentBlockNodes scenario_B) = ContentBlockNodes out \<and>
      map key out = [''n'', ''nn'', ''nnn''] \<and>
      get out ''n'' = Some a \<and> children a = [''nn'', ''nnn''] \<and>
      get out ''nn'' = Some b \<and> parent b = Some ''n'' \<and> nextSibling b = Some ''nnn'' \<and>
      get out ''nnn'' = Some c \<and> parent c = Some ''n'' \<and> prevSibling c = Some ''nn''"
    apply (rule exI[of _ out])
    apply (rule exI[of _ a])
    apply (rule exI[of _ b])
    apply (rule exI[of _ c])
    using a b c o by simp
  then show ?thesis
    using scenario_B_wf scenario_B_fresh by simp
qed

text \<open>
  The claim as stated fails on the previous sibling of an orphan: \<open>c2\<close> names \<open>c1\<close>,
  which is outside the map, and the rekeyed \<open>c2\<close> names the new key of \<open>g\<close>, the root
  before it, instead of null.
\<close>

theorem orphan_is_chained_to_previous_root:
  "wf_tree orphans \<and> fresh_keys numbered (length orphans) (map key orphans) \<and>
   randomizeBlockMapKeys numbered (ContentBlockNodes orphans) =
     ContentBlockNodes
       [\<lparr>key = ''n'', blockText = ''g'', parent = None, children = [],
         prevSibling = None, nextSibling = Some ''nn''\<rparr>,
        \<lparr>key = ''nn'', blockText = ''c2'', parent = None, children = [],
         prevSibling = Some ''n'', nextSibling = None\<rparr>]"
  by (simp add: orphans_def wf_tree_def fresh_keys_def rootKeys_def resolves_to_def present_def
        randomizeContentBlockNodeKeys_def visitBlock_def linkNext_def linkPrev_def
        linkParent_def chainRoot_def hasParentIn_def get_def setIn_parent_def setIn_children_def
        setIn_prevSibling_def setIn_nextSibling_def
        OrderedMap_of_def OrderedMap_set_def newKeyOf_def newKeysRef_set_def newKeysRef_get_def node_def numbered_def Let_def upt_rec)

end
